theory Spec2Isabelle
  imports Main "HOL-Library.Word"
begin

unbundle bit_operations_syntax

section \<open>Relay_log_info (sql/rpl_rli.h): the data model\<close>

text \<open>
  The machine integers of the header on the LP64 targets the server is built for:
  \<^verbatim>\<open>uint32\<close> is 32 bits wide, \<^verbatim>\<open>ulong\<close> (\<^verbatim>\<open>unsigned long\<close>) and
  \<^verbatim>\<open>ulonglong\<close> are 64 bits wide.
\<close>

type_synonym uint32 = "32 word"
type_synonym ulong = "64 word"
type_synonym ulonglong = "64 word"

text \<open>
  \<^verbatim>\<open>enum enum_state_flag { IN_STMT, STATE_FLAGS_COUNT }\<close>: the enumerators and the
  integer each one converts to in \<^verbatim>\<open>1UL << flag\<close>.
\<close>

datatype enum_state_flag = IN_STMT | STATE_FLAGS_COUNT

fun flag_value :: "enum_state_flag \<Rightarrow> nat" where
  "flag_value IN_STMT = 0"
| "flag_value STATE_FLAGS_COUNT = 1"

text \<open>The anonymous enum of \<^verbatim>\<open>mts_group_status\<close>.\<close>

datatype mts_group_status_t =
  MTS_NOT_IN_GROUP | MTS_IN_GROUP | MTS_END_GROUP | MTS_KILLED_GROUP

text \<open>
  A thread is known by its identity. A mutex is modelled by its owner, a condition
  variable by the set of threads waiting on it.
\<close>

type_synonym THD = nat
type_synonym mysql_mutex_t = "THD option"
type_synonym mysql_cond_t = "THD set"

text \<open>
  \<^verbatim>\<open>std::shared_ptr<Log_event_wrapper>\<close> is an address or \<^verbatim>\<open>nullptr\<close> (\<open>None\<close>). The
  class \<^verbatim>\<open>Log_event_wrapper\<close> is declared elsewhere; the header uses its member
  \<^verbatim>\<open>next_ev\<close> only; its other members are the record's extension \<open>'w\<close>, taken to
  own no event.
\<close>

type_synonym event_ptr = "nat option"

record Log_event_wrapper =
  next_ev :: event_ptr

text \<open>
  The store maps the address of every live event to the event and the number of
  \<^verbatim>\<open>shared_ptr\<close> that own it (\<^verbatim>\<open>use_count()\<close>). An event is destroyed, and leaves
  the store, when its last owner lets go of it. A \<^verbatim>\<open>std::weak_ptr\<close> is an address
  too: it owns nothing, it may outlive its event, and then \<^verbatim>\<open>lock()\<close> yields null.
\<close>

record 'w sp_counted =
  use_count :: nat
  wrapper :: "'w Log_event_wrapper_scheme"

type_synonym 'w event_store = "nat \<rightharpoonup> 'w sp_counted"

text \<open>\<^verbatim>\<open>Dependency_key\<close> is declared elsewhere; the spec has keys mapped to strings.\<close>

type_synonym Dependency_key = string

text \<open>
  The fields of \<^verbatim>\<open>Relay_log_info\<close> read or written by the inline members modelled
  below. \<^verbatim>\<open>workers_elements\<close> is \<^verbatim>\<open>workers.elements\<close>, the length of the
  \<^verbatim>\<open>DYNAMIC_ARRAY\<close> of workers. \<^verbatim>\<open>dep_queue\<close> is the \<^verbatim>\<open>std::deque\<close>, front first.
  \<^verbatim>\<open>dep_key_lookup\<close> is the list of the entries of the \<^verbatim>\<open>std::unordered_map\<close>, in
  the order in which \<^verbatim>\<open>clear()\<close> destroys them.
  \<^verbatim>\<open>table_map_events\<close> maps a table id to the address of a \<^verbatim>\<open>Table_map_log_event\<close>.
\<close>

record Relay_log_info =
  m_flags :: uint32
  workers_elements :: nat
  slave_parallel_workers :: ulong
  recovery_groups_inited :: bool
  mts_recovery_group_cnt :: ulong
  mts_group_status :: mts_group_status_t
  dep_queue :: "event_ptr list"
  dep_lock :: mysql_mutex_t
  dep_key_lookup :: "(Dependency_key \<times> event_ptr) list"
  dep_key_lookup_mutex :: mysql_mutex_t
  keys_accessed_by_group :: "Dependency_key set"
  dbs_accessed_by_group :: "string set"
  dep_full_cond :: mysql_cond_t
  dep_full :: bool
  dep_empty_cond :: mysql_cond_t
  num_workers_waiting :: ulonglong
  prev_event :: event_ptr
  table_map_events :: "ulonglong \<rightharpoonup> nat"
  current_begin_event :: event_ptr
  trx_queued :: bool
  dep_sync_group :: bool
  dependency_worker_error :: bool
  dep_trx_all_done_cond :: mysql_cond_t
  num_in_flight_trx :: ulonglong
  num_events_in_current_group :: ulonglong

text \<open>
  A \<^verbatim>\<open>Relay_log_info\<close> with the in-class initialisers of the header; the fields the
  constructor sets (in rpl_rli.cc) are zero, empty or unlocked here.
\<close>

definition rli0 :: Relay_log_info where
  "rli0 = \<lparr>m_flags = 0, workers_elements = 0, slave_parallel_workers = 0,
     recovery_groups_inited = False, mts_recovery_group_cnt = 0,
     mts_group_status = MTS_NOT_IN_GROUP, dep_queue = [], dep_lock = None,
     dep_key_lookup = [], dep_key_lookup_mutex = None,
     keys_accessed_by_group = {}, dbs_accessed_by_group = {}, dep_full_cond = {},
     dep_full = False, dep_empty_cond = {}, num_workers_waiting = 0, prev_event = None,
     table_map_events = Map.empty, current_begin_event = None, trx_queued = False,
     dep_sync_group = False, dependency_worker_error = False,
     dep_trx_all_done_cond = {}, num_in_flight_trx = 0,
     num_events_in_current_group = 0\<rparr>"

section \<open>Failing calls, mutexes and condition variables\<close>

text \<open>
  Modelled from the spec: the macros \<^verbatim>\<open>DBUG_ASSERT\<close> and
  \<^verbatim>\<open>mysql_mutex_assert_owner\<close> are used by the header and defined elsewhere. The
  spec's propagation policy makes a violated lock or queue-state precondition a
  programming error that fails fast; a build without the debugging macros compiles them
  to nothing. The parameter \<open>dbug\<close> of the operations below is the build: \<open>True\<close>
  when the assertions are compiled in.

  \<open>Blocked\<close>: the call waits for a mutex another thread owns (or it owns itself) and
  cannot complete from this state. \<open>Dangling_pointer\<close>: an address that is not in the
  store is dereferenced; an owning pointer never is one.
\<close>

datatype error = Assertion_failed | Blocked | Dangling_pointer

definition DBUG_ASSERT :: "bool \<Rightarrow> bool \<Rightarrow> error + unit" where
  "DBUG_ASSERT dbug c = (if dbug \<and> \<not> c then Inl Assertion_failed else Inr ())"

definition mysql_mutex_assert_owner :: "bool \<Rightarrow> THD \<Rightarrow> mysql_mutex_t \<Rightarrow> error + unit" where
  "mysql_mutex_assert_owner dbug thd m = DBUG_ASSERT dbug (m = Some thd)"

text \<open>
  Modelled from the spec: the mutex and condition-variable primitives are the server's
  wrappers of the thread library. Locking a free mutex makes the caller its owner;
  unlocking frees it; a broadcast wakes every waiter of the condition.
\<close>

definition mysql_mutex_lock :: "THD \<Rightarrow> mysql_mutex_t \<Rightarrow> error + mysql_mutex_t" where
  "mysql_mutex_lock thd m = (case m of None \<Rightarrow> Inr (Some thd) | Some owner \<Rightarrow> Inl Blocked)"

definition mysql_mutex_unlock :: "mysql_mutex_t \<Rightarrow> mysql_mutex_t" where
  "mysql_mutex_unlock m = None"

definition mysql_cond_broadcast :: "mysql_cond_t \<Rightarrow> mysql_cond_t" where
  "mysql_cond_broadcast c = {}"

section \<open>Replication state flags\<close>

text \<open>
  \<^verbatim>\<open>m_flags |= (1UL << flag)\<close>: the 32-bit field is converted to \<^verbatim>\<open>unsigned long\<close>,
  combined with the 64-bit mask and converted back to 32 bits by the assignment.
\<close>

definition flag_mask :: "enum_state_flag \<Rightarrow> ulong" where
  "flag_mask flag = push_bit (flag_value flag) 1"

definition set_flag :: "enum_state_flag \<Rightarrow> 'a Relay_log_info_scheme \<Rightarrow> 'a Relay_log_info_scheme" where
  "set_flag flag rli = rli\<lparr>m_flags := ucast ((ucast (m_flags rli) :: ulong) OR flag_mask flag)\<rparr>"

text \<open>\<^verbatim>\<open>return m_flags & (1UL << flag)\<close>: the conversion to \<^verbatim>\<open>bool\<close> tests for non-zero.\<close>

definition get_flag :: "enum_state_flag \<Rightarrow> 'a Relay_log_info_scheme \<Rightarrow> bool" where
  "get_flag flag rli = ((ucast (m_flags rli) :: ulong) AND flag_mask flag \<noteq> 0)"

definition clear_flag :: "enum_state_flag \<Rightarrow> 'a Relay_log_info_scheme \<Rightarrow> 'a Relay_log_info_scheme" where
  "clear_flag flag rli = rli\<lparr>m_flags := ucast ((ucast (m_flags rli) :: ulong) AND NOT (flag_mask flag))\<rparr>"

section \<open>Recovery and parallel execution\<close>

definition is_mts_recovery :: "'a Relay_log_info_scheme \<Rightarrow> bool" where
  "is_mts_recovery rli = (mts_recovery_group_cnt rli \<noteq> 0)"

text \<open>
  \<^verbatim>\<open>bitmap_free(&recovery_groups)\<close> releases the bitmap's storage; the bitmap's contents
  are not read by the members modelled here.
\<close>

definition clear_mts_recovery_groups :: "'a Relay_log_info_scheme \<Rightarrow> 'a Relay_log_info_scheme" where
  "clear_mts_recovery_groups rli =
     (if recovery_groups_inited rli
      then rli\<lparr>mts_recovery_group_cnt := 0, recovery_groups_inited := False\<rparr>
      else rli)"

definition is_parallel_exec :: "bool \<Rightarrow> 'a Relay_log_info_scheme \<Rightarrow> error + bool" where
  "is_parallel_exec dbug rli =
     (let ret = (slave_parallel_workers rli > 0 \<and> \<not> is_mts_recovery rli) in
      case DBUG_ASSERT dbug (\<not> ret \<or> workers_elements rli > 0) of
        Inl e \<Rightarrow> Inl e
      | Inr _ \<Rightarrow> Inr ret)"

definition is_mts_in_group :: "bool \<Rightarrow> 'a Relay_log_info_scheme \<Rightarrow> error + bool" where
  "is_mts_in_group dbug rli =
     (case is_parallel_exec dbug rli of
        Inl e \<Rightarrow> Inl e
      | Inr p \<Rightarrow> Inr (p \<and> mts_group_status rli = MTS_IN_GROUP))"

section \<open>Owning pointers\<close>

text \<open>
  Copying a \<^verbatim>\<open>shared_ptr\<close> adds an owner of its event. A pointer whose event is not
  in the store owns nothing, and copying or releasing it changes nothing.
\<close>

definition sp_copy :: "'w event_store \<Rightarrow> event_ptr \<Rightarrow> 'w event_store" where
  "sp_copy h p =
     (case p of
        None \<Rightarrow> h
      | Some a \<Rightarrow>
          (case h a of
             None \<Rightarrow> h
           | Some c \<Rightarrow> h(a \<mapsto> c\<lparr>use_count := use_count c + 1\<rparr>)))"

text \<open>
  Destroying or resetting a \<^verbatim>\<open>shared_ptr\<close> takes an owner away. When it was the last
  one the event is destroyed, and the destructor of the event releases its
  \<^verbatim>\<open>next_ev\<close> in turn, from within: the cascade the header's comment on
  \<^verbatim>\<open>cleanup_group\<close> speaks of. \<open>depth\<close> counts the destructors entered and not yet
  left, so the result is the store and the deepest nesting the release has reached.
  The cascade goes on for as long as it finds events with one owner: the function is
  partial.
\<close>

partial_function (option) sp_release ::
  "'w event_store \<Rightarrow> event_ptr \<Rightarrow> nat \<Rightarrow> ('w event_store \<times> nat) option"
where
  "sp_release h p depth =
     (case p of
        None \<Rightarrow> Some (h, depth)
      | Some a \<Rightarrow>
          (case h a of
             None \<Rightarrow> Some (h, depth)
           | Some c \<Rightarrow>
               if use_count c > 1 then Some (h(a \<mapsto> c\<lparr>use_count := use_count c - 1\<rparr>), depth)
               else sp_release (h(a := None)) (next_ev (wrapper c)) (Suc depth)))"

text \<open>Releasing the pointers of a list, first to last.\<close>

fun sp_release_all :: "'w event_store \<Rightarrow> event_ptr list \<Rightarrow> 'w event_store option" where
  "sp_release_all h [] = Some h"
| "sp_release_all h (p # ps) =
     (case sp_release h p 0 of
        None \<Rightarrow> None
      | Some (h', d) \<Rightarrow> sp_release_all h' ps)"

section \<open>The dependency queue\<close>

text \<open>
  \<^verbatim>\<open>dep_queue.push_back(begin_event)\<close> copies the pointer into the queue: the queue
  becomes an owner of the event.
\<close>

definition enqueue_dep ::
  "bool \<Rightarrow> THD \<Rightarrow> event_ptr \<Rightarrow> 'a Relay_log_info_scheme \<times> 'w event_store \<Rightarrow>
     error + (bool \<times> 'a Relay_log_info_scheme \<times> 'w event_store)"
where
  "enqueue_dep dbug thd begin_event st =
     (case st of (rli, h) \<Rightarrow>
      (case mysql_mutex_assert_owner dbug thd (dep_lock rli) of
         Inl e \<Rightarrow> Inl e
       | Inr _ \<Rightarrow>
           Inr (True, rli\<lparr>dep_queue := dep_queue rli @ [begin_event]\<rparr>, sp_copy h begin_event)))"

text \<open>
  \<^verbatim>\<open>dequeue_dep\<close> copies the front of the queue into \<^verbatim>\<open>ret\<close> and pops it: the
  pointer returned owns the event in place of the queue's entry, and the store is as it
  was.
\<close>

definition dequeue_dep ::
  "bool \<Rightarrow> THD \<Rightarrow> 'a Relay_log_info_scheme \<Rightarrow> error + (event_ptr \<times> 'a Relay_log_info_scheme)"
where
  "dequeue_dep dbug thd rli =
     (case mysql_mutex_assert_owner dbug thd (dep_lock rli) of
        Inl e \<Rightarrow> Inl e
      | Inr _ \<Rightarrow>
          (case dep_queue rli of
             [] \<Rightarrow> Inr (None, rli)
           | ret # rest \<Rightarrow> Inr (ret, rli\<lparr>dep_queue := rest\<rparr>)))"

text \<open>
  Callers of the two operations: \<open>enqueue_deps\<close> enqueues the groups of a list in
  order, \<open>dequeue_deps n\<close> dequeues \<open>n\<close> times and returns what the calls returned, in
  order. Both stop at the first failing call.
\<close>

fun enqueue_deps ::
  "bool \<Rightarrow> THD \<Rightarrow> event_ptr list \<Rightarrow> 'a Relay_log_info_scheme \<times> 'w event_store \<Rightarrow>
     error + 'a Relay_log_info_scheme \<times> 'w event_store"
where
  "enqueue_deps dbug thd [] st = Inr st"
| "enqueue_deps dbug thd (ev # evs) st =
     (case enqueue_dep dbug thd ev st of
        Inl e \<Rightarrow> Inl e
      | Inr (ok, st') \<Rightarrow> enqueue_deps dbug thd evs st')"

fun dequeue_deps ::
  "bool \<Rightarrow> THD \<Rightarrow> nat \<Rightarrow> 'a Relay_log_info_scheme \<Rightarrow> error + (event_ptr list \<times> 'a Relay_log_info_scheme)"
where
  "dequeue_deps dbug thd 0 rli = Inr ([], rli)"
| "dequeue_deps dbug thd (Suc n) rli =
     (case dequeue_dep dbug thd rli of
        Inl e \<Rightarrow> Inl e
      | Inr (ev, rli') \<Rightarrow>
          (case dequeue_deps dbug thd n rli' of
             Inl e \<Rightarrow> Inl e
           | Inr (evs, rli'') \<Rightarrow> Inr (ev # evs, rli'')))"

section \<open>Releasing a group\<close>

text \<open>
  \<^verbatim>\<open>cleanup_group\<close> takes its argument by value: \<open>begin_event\<close> is an owner of its
  own, which the caller's copy has made, and \<^verbatim>\<open>event\<close> is a reference to it.

  The first loop pushes a weak pointer to every event of the chain. The stack is a list,
  its top first. \<^verbatim>\<open>event= event->next_ev\<close> reads the link of the event, makes
  \<^verbatim>\<open>event\<close> an owner of the next event and then lets go of the event it owned, which
  may destroy it. The loop runs for as long as the chain goes on, so the function is
  partial: \<open>None\<close> is a loop that does not end. \<open>depth\<close> is the deepest nesting of
  destructors so far.
\<close>

partial_function (option) cleanup_group_push ::
  "'w event_store \<Rightarrow> event_ptr \<Rightarrow> nat list \<Rightarrow> nat \<Rightarrow>
     (error + 'w event_store \<times> nat list \<times> nat) option"
where
  "cleanup_group_push h event events depth =
     (case event of
        None \<Rightarrow> Some (Inr (h, events, depth))
      | Some a \<Rightarrow>
          (case h a of
             None \<Rightarrow> Some (Inl Dangling_pointer)
           | Some c \<Rightarrow>
               (case sp_release (sp_copy h (next_ev (wrapper c))) event 0 of
                  None \<Rightarrow> None
                | Some (h', d) \<Rightarrow>
                    cleanup_group_push h' (next_ev (wrapper c)) (a # events) (max depth d))))"

text \<open>
  The second loop pops the stack until it is empty. \<^verbatim>\<open>events.top().lock()\<close> yields
  null when the event has been destroyed (\<open>h top_ev = None\<close>), and the entry is
  skipped. Otherwise \<^verbatim>\<open>sptr\<close> is one more owner of the event;
  \<^verbatim>\<open>sptr->next_ev.reset()\<close> makes the link null and then lets go of the event it led
  to; and \<^verbatim>\<open>sptr\<close> lets go of the event at the end of the iteration.
\<close>

fun cleanup_group_pop ::
  "'w event_store \<Rightarrow> nat list \<Rightarrow> nat \<Rightarrow> ('w event_store \<times> nat) option"
where
  "cleanup_group_pop h [] depth = Some (h, depth)"
| "cleanup_group_pop h (top_ev # events) depth =
     (case h top_ev of
        None \<Rightarrow> cleanup_group_pop h events depth
      | Some c \<Rightarrow>
          (case sp_release
                  (h(top_ev \<mapsto> c\<lparr>use_count := use_count c + 1,
                                  wrapper := (wrapper c)\<lparr>next_ev := None\<rparr>\<rparr>))
                  (next_ev (wrapper c)) 0 of
             None \<Rightarrow> None
           | Some (h1, d1) \<Rightarrow>
               (case sp_release h1 (Some top_ev) 0 of
                  None \<Rightarrow> None
                | Some (h2, d2) \<Rightarrow> cleanup_group_pop h2 events (max depth (max d1 d2)))))"

text \<open>
  The two loops, from any event, stack and depth; \<^verbatim>\<open>cleanup_group\<close> starts them at
  its argument with an empty stack. It returns the store and the deepest nesting of
  destructors that any of its releases has reached. When the first loop has ended
  \<^verbatim>\<open>begin_event\<close> is null, and its destruction at the end of the call releases nothing.
\<close>

definition cleanup_group_from ::
  "'w event_store \<Rightarrow> event_ptr \<Rightarrow> nat list \<Rightarrow> nat \<Rightarrow> (error + 'w event_store \<times> nat) option"
where
  "cleanup_group_from h event events depth =
     (case cleanup_group_push h event events depth of
        None \<Rightarrow> None
      | Some (Inl e) \<Rightarrow> Some (Inl e)
      | Some (Inr (h1, events1, d)) \<Rightarrow> map_option Inr (cleanup_group_pop h1 events1 d))"

definition cleanup_group ::
  "'w event_store \<Rightarrow> event_ptr \<Rightarrow> (error + 'w event_store \<times> nat) option"
where
  "cleanup_group h begin_event = cleanup_group_from h begin_event [] 0"

text \<open>
  \<open>chain h p as\<close>: from \<open>p\<close> the \<^verbatim>\<open>next_ev\<close> links of the store lead through the
  live events \<open>as\<close>, each with an owner, in this order, to null. A chain that runs into
  a cycle has no such list.
\<close>

fun chain :: "'w event_store \<Rightarrow> event_ptr \<Rightarrow> nat list \<Rightarrow> bool" where
  "chain h p [] \<longleftrightarrow> p = None"
| "chain h p (a # as) \<longleftrightarrow>
     p = Some a \<and>
     (case h a of None \<Rightarrow> False | Some c \<Rightarrow> 0 < use_count c \<and> chain h (next_ev (wrapper c)) as)"

text \<open>
  What becomes of an event that loses the owner the chain (or the argument) was, and its
  link: it lives on with a null link when it has another owner, and is destroyed
  otherwise. \<open>released_store h as\<close> is the store in which this has happened to the
  events \<open>as\<close>.
\<close>

definition let_go :: "'w sp_counted \<Rightarrow> 'w sp_counted option" where
  "let_go c =
     (if 2 \<le> use_count c
      then Some (c\<lparr>use_count := use_count c - 1, wrapper := (wrapper c)\<lparr>next_ev := None\<rparr>\<rparr>)
      else None)"

definition released_store :: "'w event_store \<Rightarrow> nat list \<Rightarrow> 'w event_store" where
  "released_store h as =
     (\<lambda>a. if a \<in> set as then (case h a of None \<Rightarrow> None | Some c \<Rightarrow> let_go c) else h a)"

text \<open>The store after an owner has let go of an event whose own link is null.\<close>

definition drop_owner :: "'w event_store \<Rightarrow> event_ptr \<Rightarrow> 'w event_store" where
  "drop_owner h p =
     (case p of
        None \<Rightarrow> h
      | Some a \<Rightarrow>
          (case h a of
             None \<Rightarrow> h
           | Some c \<Rightarrow>
               if 1 < use_count c then h(a \<mapsto> c\<lparr>use_count := use_count c - 1\<rparr>)
               else h(a := None)))"

section \<open>Tearing the dependency tracker down\<close>

text \<open>
  \<^verbatim>\<open>for (const auto& begin_event : dep_queue) cleanup_group(begin_event);\<close> Each call
  copies the entry of the queue into the argument.
\<close>

fun clear_dep_groups :: "'w event_store \<Rightarrow> event_ptr list \<Rightarrow> (error + 'w event_store) option" where
  "clear_dep_groups h [] = Some (Inr h)"
| "clear_dep_groups h (begin_event # q) =
     (case cleanup_group (sp_copy h begin_event) begin_event of
        None \<Rightarrow> None
      | Some (Inl e) \<Rightarrow> Some (Inl e)
      | Some (Inr (h', d)) \<Rightarrow> clear_dep_groups h' q)"

text \<open>
  \<^verbatim>\<open>clear_dep\<close> runs on thread \<open>thd\<close>, on the object and the store of events. The
  comparison of the assertion and the subtraction are those of 64-bit unsigned
  integers; \<^verbatim>\<open>dep_queue.size()\<close> is the length of the queue. After the calls of
  \<^verbatim>\<open>cleanup_group\<close> the object lets go of the events it owns: \<^verbatim>\<open>dep_queue.clear()\<close>,
  \<^verbatim>\<open>prev_event.reset()\<close>, \<^verbatim>\<open>current_begin_event.reset()\<close> and, under its mutex,
  \<^verbatim>\<open>dep_key_lookup.clear()\<close>.
\<close>

definition clear_dep ::
  "bool \<Rightarrow> THD \<Rightarrow> bool \<Rightarrow> 'a Relay_log_info_scheme \<times> 'w event_store \<Rightarrow>
     (error + 'a Relay_log_info_scheme \<times> 'w event_store) option"
where
  "clear_dep dbug thd need_dep_lock st =
     (case st of (rli, h) \<Rightarrow>
      (case (if need_dep_lock then mysql_mutex_lock thd (dep_lock rli) else Inr (dep_lock rli)) of
         Inl e \<Rightarrow> Some (Inl e)
       | Inr l \<Rightarrow>
      (case DBUG_ASSERT dbug (unat (num_in_flight_trx rli) \<ge> length (dep_queue rli)) of
         Inl e \<Rightarrow> Some (Inl e)
       | Inr _ \<Rightarrow>
      (case clear_dep_groups h (dep_queue rli) of
         None \<Rightarrow> None
       | Some (Inl e) \<Rightarrow> Some (Inl e)
       | Some (Inr h1) \<Rightarrow>
      (case sp_release_all h1 (dep_queue rli @ [prev_event rli, current_begin_event rli]) of
         None \<Rightarrow> None
       | Some h2 \<Rightarrow>
      (case mysql_mutex_lock thd (dep_key_lookup_mutex rli) of
         Inl e \<Rightarrow> Some (Inl e)
       | Inr k \<Rightarrow>
      (case sp_release_all h2 (map snd (dep_key_lookup rli)) of
         None \<Rightarrow> None
       | Some h' \<Rightarrow>
           Some (Inr (rli\<lparr>
             num_in_flight_trx := num_in_flight_trx rli - of_nat (length (dep_queue rli)),
             dep_queue := [],
             prev_event := None,
             current_begin_event := None,
             table_map_events := Map.empty,
             keys_accessed_by_group := {},
             dbs_accessed_by_group := {},
             dep_empty_cond := mysql_cond_broadcast (dep_empty_cond rli),
             dep_full_cond := mysql_cond_broadcast (dep_full_cond rli),
             dep_trx_all_done_cond := mysql_cond_broadcast (dep_trx_all_done_cond rli),
             dep_full := False,
             dep_key_lookup := [],
             dep_key_lookup_mutex := mysql_mutex_unlock k,
             trx_queued := False,
             num_events_in_current_group := 0,
             dep_lock := (if need_dep_lock then mysql_mutex_unlock l else l)\<rparr>, h')))))))))"

section \<open>The coordinator's group status\<close>






section \<open>The committed-group queue\<close>

text \<open>
  Modelled from the spec: the header holds a pointer \<^verbatim>\<open>gaq\<close> to the
  \<^verbatim>\<open>Slave_committed_queue\<close>; the class and its operations are declared elsewhere. The
  spec: the queue holds one descriptor (group index, checkpoint sequence number, source
  position) per group in flight, ordered by group index; a worker's completion report
  marks the group's descriptor complete; a checkpoint pass scans from the head, moves
  the durable low-water mark past the longest complete prefix, evicts these descriptors
  and persists the new position with a bitmap of the completions that are not in the
  prefix. Group indices are the naturals in the order of assignment.
\<close>

record Slave_job_group =
  group_index :: nat
  checkpoint_seqno :: nat
  source_pos :: nat
  completed :: bool

record Slave_committed_queue =
  queue :: "Slave_job_group list"
  next_index :: nat
  lwm :: nat
  gap_bitmap :: "nat list"

text \<open>Modelled from the spec: the queue at scheduler start-up, with no group in flight.\<close>

definition gaq_init :: Slave_committed_queue where
  "gaq_init = \<lparr>queue = [], next_index = 0, lwm = 0, gap_bitmap = []\<rparr>"

text \<open>
  Modelled from the spec: the coordinator assigns a group; its descriptor, with the next
  group index, goes to the tail of the queue.
\<close>

definition gaq_assign :: "nat \<Rightarrow> nat \<Rightarrow> Slave_committed_queue \<Rightarrow> Slave_committed_queue" where
  "gaq_assign seqno pos g =
     g\<lparr>queue := queue g @
          [\<lparr>group_index = next_index g, checkpoint_seqno = seqno, source_pos = pos, completed = False\<rparr>],
       next_index := next_index g + 1\<rparr>"

text \<open>
  Modelled from the spec: on a worker's completion report the descriptor of the group is
  marked complete.
\<close>

definition gaq_report_done :: "nat \<Rightarrow> Slave_committed_queue \<Rightarrow> Slave_committed_queue" where
  "gaq_report_done i g =
     g\<lparr>queue := map (\<lambda>d. if group_index d = i then d\<lparr>completed := True\<rparr> else d) (queue g)\<rparr>"

text \<open>
  Modelled from the spec: the checkpoint pass. The mark moves just past the last
  descriptor of the longest complete prefix; the bitmap holds the completed groups left
  in the queue.
\<close>

definition gaq_checkpoint :: "Slave_committed_queue \<Rightarrow> Slave_committed_queue" where
  "gaq_checkpoint g =
     (let prefix = takeWhile completed (queue g); rest = dropWhile completed (queue g) in
      g\<lparr>queue := rest,
        lwm := (if prefix = [] then lwm g else group_index (last prefix) + 1),
        gap_bitmap := map group_index (filter completed rest)\<rparr>)"

text \<open>
  Modelled from the spec: an interleaving is a list of events. A worker reports a group
  that has been assigned; the report of a group that never was is rejected.
\<close>

datatype gaq_event = Assign nat nat | Report_done nat | Checkpoint

fun gaq_step :: "gaq_event \<Rightarrow> Slave_committed_queue \<Rightarrow> Slave_committed_queue option" where
  "gaq_step (Assign seqno pos) g = Some (gaq_assign seqno pos g)"
| "gaq_step (Report_done i) g = (if i < next_index g then Some (gaq_report_done i g) else None)"
| "gaq_step Checkpoint g = Some (gaq_checkpoint g)"

fun gaq_run :: "gaq_event list \<Rightarrow> Slave_committed_queue \<Rightarrow> Slave_committed_queue option" where
  "gaq_run [] g = Some g"
| "gaq_run (e # es) g = (case gaq_step e g of None \<Rightarrow> None | Some g' \<Rightarrow> gaq_run es g')"

text \<open>
  The invariant of the queue along a run, \<open>R\<close> being the groups reported complete:
  the queue holds the groups from the low-water mark to the last one assigned, in order;
  every group below the mark and every descriptor marked complete has been reported.
\<close>

definition gaq_inv :: "nat set \<Rightarrow> Slave_committed_queue \<Rightarrow> bool" where
  "gaq_inv R g \<longleftrightarrow>
     map group_index (queue g) = [lwm g ..< next_index g] \<and> lwm g \<le> next_index g \<and>
     (\<forall>i < lwm g. i \<in> R) \<and> (\<forall>d \<in> set (queue g). completed d \<longrightarrow> group_index d \<in> R)"

section \<open>The commit-order manager\<close>

text \<open>
  Modelled from the spec: the header holds a pointer \<^verbatim>\<open>commit_order_mngr\<close> to the
  \<^verbatim>\<open>Commit_order_manager\<close> with its getter and setter; the class is declared
  elsewhere. The spec: a worker requests permission to commit group \<open>G\<close>; the manager
  grants at once if \<open>G\<close> is the oldest group still uncommitted, otherwise the worker
  blocks until all groups of smaller index have been granted; on a grant the manager
  records the group committed and wakes the next waiter whose predecessor has just
  cleared. Group indices are the naturals in the order of arrival; \<open>granted\<close> is the
  log of grants, oldest first; a request for a group already granted or already
  waiting is rejected.
\<close>

record Commit_order_manager =
  next_to_commit :: nat
  waiting :: "nat list"
  granted :: "nat list"

text \<open>Modelled from the spec: the manager before any group has asked to commit.\<close>

definition com_init :: Commit_order_manager where
  "com_init = \<lparr>next_to_commit = 0, waiting = [], granted = []\<rparr>"

text \<open>Modelled from the spec: on a grant the manager records the group committed.\<close>

definition com_grant :: "nat \<Rightarrow> Commit_order_manager \<Rightarrow> Commit_order_manager" where
  "com_grant G m = m\<lparr>next_to_commit := G + 1, granted := granted m @ [G]\<rparr>"

text \<open>
  Modelled from the spec: the manager wakes the waiter whose predecessor has just
  cleared, if there is one; the waiter is granted in its turn, which may wake the next.
\<close>

function com_wake_next :: "Commit_order_manager \<Rightarrow> Commit_order_manager" where
  "com_wake_next m =
     (if next_to_commit m \<in> set (waiting m)
      then com_wake_next
             (com_grant (next_to_commit m) (m\<lparr>waiting := removeAll (next_to_commit m) (waiting m)\<rparr>))
      else m)"
  by pat_completeness auto
termination
proof (relation "measure (\<lambda>m. length (waiting m))")
  show "wf (measure (\<lambda>m. length (waiting m)))" by simp
next
  fix m :: Commit_order_manager
  assume "next_to_commit m \<in> set (waiting m)"
  then have "length (removeAll (next_to_commit m) (waiting m)) < length (waiting m)"
    by (rule length_removeAll_less)
  then show "(com_grant (next_to_commit m) (m\<lparr>waiting := removeAll (next_to_commit m) (waiting m)\<rparr>), m)
      \<in> measure (\<lambda>m. length (waiting m))"
    by (simp add: com_grant_def)
qed

declare com_wake_next.simps [simp del]

text \<open>
  Modelled from the spec: the request of a worker to commit group \<open>G\<close>. It is granted
  at once when \<open>G\<close> is the oldest uncommitted group; otherwise the worker waits.
\<close>

definition com_request :: "nat \<Rightarrow> Commit_order_manager \<Rightarrow> Commit_order_manager option" where
  "com_request G m =
     (if G < next_to_commit m \<or> G \<in> set (waiting m) then None
      else if G = next_to_commit m then Some (com_wake_next (com_grant G m))
      else Some (m\<lparr>waiting := G # waiting m\<rparr>))"

fun com_run :: "nat list \<Rightarrow> Commit_order_manager \<Rightarrow> Commit_order_manager option" where
  "com_run [] m = Some m"
| "com_run (G # Gs) m = (case com_request G m of None \<Rightarrow> None | Some m' \<Rightarrow> com_run Gs m')"

text \<open>
  The invariant of the manager along a run, \<open>R\<close> being the groups requested.
\<close>

definition com_inv :: "nat set \<Rightarrow> Commit_order_manager \<Rightarrow> bool" where
  "com_inv R m \<longleftrightarrow>
     granted m = [0 ..< next_to_commit m] \<and> (\<forall>G \<in> set (waiting m). next_to_commit m \<le> G) \<and>
     set (granted m) \<union> set (waiting m) = R"

section \<open>Flags: proofs\<close>

lemma bit_flag_mask: "bit (flag_mask f) n \<longleftrightarrow> n = flag_value f"
  by (cases f) (auto simp: flag_mask_def bit_simps)

lemma flag_value_lt: "flag_value f < 32"
  by (cases f) simp_all

lemma flag_value_inj: "flag_value f = flag_value g \<longleftrightarrow> f = g"
  by (cases f; cases g) simp_all

lemma word_nonzero_bit: "(w :: 'a::len word) \<noteq> 0 \<longleftrightarrow> (\<exists>n. bit w n)"
  by (metis bit_eq_iff bit_0_eq bot_apply bot_bool_def)

lemma get_flag_bit: "get_flag f rli \<longleftrightarrow> bit (m_flags rli) (flag_value f)"
proof -
  have "(ucast (m_flags rli) :: ulong) AND flag_mask f \<noteq> 0 \<longleftrightarrow>
        (\<exists>n. bit ((ucast (m_flags rli) :: ulong) AND flag_mask f) n)"
    by (rule word_nonzero_bit)
  also have "\<dots> \<longleftrightarrow> bit (m_flags rli) (flag_value f)"
    using flag_value_lt [of f] by (auto simp: bit_simps bit_flag_mask)
  finally show ?thesis by (simp add: get_flag_def)
qed

lemma bit_set_flag:
  "bit (m_flags (set_flag f rli)) n \<longleftrightarrow> bit (m_flags rli) n \<or> n = flag_value f"
  using flag_value_lt [of f] bit_imp_le_length [of "m_flags rli" n]
  by (auto simp: set_flag_def bit_simps bit_flag_mask)

lemma bit_clear_flag:
  "bit (m_flags (clear_flag f rli)) n \<longleftrightarrow> bit (m_flags rli) n \<and> n \<noteq> flag_value f"
  using flag_value_lt [of f] bit_imp_le_length [of "m_flags rli" n]
  by (auto simp: clear_flag_def bit_simps bit_flag_mask)

text \<open>
  C10: for every replication state flag \<open>f\<close>, \<open>set_flag f\<close> makes \<open>get_flag f\<close> return
  true and \<open>clear_flag f\<close> makes it return false, and both leave \<open>get_flag g\<close> as it was
  for every other flag \<open>g\<close>.
\<close>

theorem set_clear_flag_frame:
  "get_flag f (set_flag f rli) \<and>
   \<not> get_flag f (clear_flag f rli) \<and>
   (g \<noteq> f \<longrightarrow> get_flag g (set_flag f rli) = get_flag g rli \<and>
                get_flag g (clear_flag f rli) = get_flag g rli)"
  by (simp add: get_flag_bit bit_set_flag bit_clear_flag flag_value_inj)

theorem set_clear_flag_frame_witness:
  "get_flag IN_STMT (set_flag IN_STMT (rli0\<lparr>m_flags := 2\<rparr>)) \<and>
   \<not> get_flag IN_STMT (clear_flag IN_STMT (rli0\<lparr>m_flags := 2\<rparr>)) \<and>
   STATE_FLAGS_COUNT \<noteq> IN_STMT \<and>
   get_flag STATE_FLAGS_COUNT (set_flag IN_STMT (rli0\<lparr>m_flags := 2\<rparr>)) \<and>
   get_flag STATE_FLAGS_COUNT (clear_flag IN_STMT (rli0\<lparr>m_flags := 2\<rparr>))"
proof -
  have g: "get_flag STATE_FLAGS_COUNT (rli0\<lparr>m_flags := 2\<rparr>)"
    by (simp add: get_flag_def flag_mask_def rli0_def)
  show ?thesis
    using set_clear_flag_frame [of IN_STMT "rli0\<lparr>m_flags := 2\<rparr>" STATE_FLAGS_COUNT] g
    by simp
qed

section \<open>Recovery and parallel execution: proofs\<close>

lemma clear_mts_recovery_groups_ends_recovery:
  "recovery_groups_inited rli \<Longrightarrow> \<not> is_mts_recovery (clear_mts_recovery_groups rli)"
  by (simp add: clear_mts_recovery_groups_def is_mts_recovery_def)

lemma is_mts_in_group_recovery:
  "is_mts_recovery rli \<Longrightarrow> is_mts_in_group dbug rli = Inr False"
  by (simp add: is_mts_in_group_def is_parallel_exec_def DBUG_ASSERT_def)

text \<open>
  C3: recovery is active exactly when \<open>mts_recovery_group_cnt\<close> is not zero; while it
  is active \<open>is_parallel_exec\<close> returns false; \<open>is_parallel_exec\<close> returns true
  exactly when the worker count is positive and recovery is not active (and, in a
  debugging build, the array of workers is not empty, as its assertion demands); and
  whenever the assertion holds it returns whether the worker count is positive and
  recovery is not active.
\<close>

theorem recovery_disables_parallel_exec:
  "(is_mts_recovery rli \<longleftrightarrow> mts_recovery_group_cnt rli \<noteq> 0) \<and>
   (is_mts_recovery rli \<longrightarrow> is_parallel_exec dbug rli = Inr False) \<and>
   (is_parallel_exec dbug rli = Inr True \<longleftrightarrow>
      slave_parallel_workers rli > 0 \<and> \<not> is_mts_recovery rli \<and>
      (dbug \<longrightarrow> workers_elements rli > 0)) \<and>
   ((dbug \<and> slave_parallel_workers rli > 0 \<and> \<not> is_mts_recovery rli \<longrightarrow> workers_elements rli > 0) \<longrightarrow>
      is_parallel_exec dbug rli = Inr (slave_parallel_workers rli > 0 \<and> \<not> is_mts_recovery rli))"
  by (auto simp: is_mts_recovery_def is_parallel_exec_def DBUG_ASSERT_def Let_def)

theorem recovery_disables_parallel_exec_witness:
  "is_mts_recovery (rli0\<lparr>workers_elements := 4, slave_parallel_workers := 4, mts_recovery_group_cnt := 2\<rparr>) \<and>
   is_parallel_exec True (rli0\<lparr>workers_elements := 4, slave_parallel_workers := 4, mts_recovery_group_cnt := 2\<rparr>) = Inr False \<and>
   \<not> is_mts_recovery (rli0\<lparr>workers_elements := 4, slave_parallel_workers := 4\<rparr>) \<and>
   is_parallel_exec True (rli0\<lparr>workers_elements := 4, slave_parallel_workers := 4\<rparr>) = Inr True"
  using recovery_disables_parallel_exec
      [of "rli0\<lparr>workers_elements := 4, slave_parallel_workers := 4, mts_recovery_group_cnt := 2\<rparr>" True]
    recovery_disables_parallel_exec
      [of "rli0\<lparr>workers_elements := 4, slave_parallel_workers := 4\<rparr>" True]
  by (simp add: rli0_def)

section \<open>The dependency queue: proofs\<close>

lemma enqueue_dep_owner:
  "dep_lock rli = Some thd \<Longrightarrow>
   enqueue_dep dbug thd ev (rli, h) =
     Inr (True, rli\<lparr>dep_queue := dep_queue rli @ [ev]\<rparr>, sp_copy h ev)"
  by (simp add: enqueue_dep_def mysql_mutex_assert_owner_def DBUG_ASSERT_def)

lemma dequeue_dep_owner:
  "dep_lock rli = Some thd \<Longrightarrow>
   dequeue_dep dbug thd rli =
     (case dep_queue rli of [] \<Rightarrow> Inr (None, rli) | ret # rest \<Rightarrow> Inr (ret, rli\<lparr>dep_queue := rest\<rparr>))"
  by (simp add: dequeue_dep_def mysql_mutex_assert_owner_def DBUG_ASSERT_def)

lemma enqueue_deps_owner:
  "dep_lock rli = Some thd \<Longrightarrow>
   enqueue_deps dbug thd evs (rli, h) =
     Inr (rli\<lparr>dep_queue := dep_queue rli @ evs\<rparr>, fold (\<lambda>ev h. sp_copy h ev) evs h)"
  by (induction evs arbitrary: rli h) (simp_all add: enqueue_dep_owner)

lemma dequeue_deps_owner:
  "dep_lock rli = Some thd \<Longrightarrow>
   dequeue_deps dbug thd n rli =
     Inr (take n (dep_queue rli) @ replicate (n - length (dep_queue rli)) None,
          rli\<lparr>dep_queue := drop n (dep_queue rli)\<rparr>)"
proof (induction n arbitrary: rli)
  case 0
  then show ?case by simp
next
  case (Suc n)
  show ?case
  proof (cases "dep_queue rli")
    case Nil
    with Suc.prems Suc.IH [of rli] show ?thesis
      by (simp add: dequeue_dep_owner)
  next
    case (Cons ev rest)
    with Suc.prems Suc.IH [of "rli\<lparr>dep_queue := rest\<rparr>"] show ?thesis
      by (simp add: dequeue_dep_owner)
  qed
qed

text \<open>
  C5: called by the owner of \<open>dep_lock\<close>, \<open>enqueue_dep\<close> appends the begin event at the
  tail of \<open>dep_queue\<close>, makes the queue an owner of the event and returns true; when it
  returns it has done so; and it fails only on the assertion that the caller owns the
  lock.
\<close>

theorem enqueue_dep_appends:
  "(dep_lock rli = Some thd \<longrightarrow>
      enqueue_dep dbug thd ev (rli, h) =
        Inr (True, rli\<lparr>dep_queue := dep_queue rli @ [ev]\<rparr>, sp_copy h ev)) \<and>
   (\<forall>r. enqueue_dep dbug thd ev (rli, h) = Inr r \<longrightarrow>
      r = (True, rli\<lparr>dep_queue := dep_queue rli @ [ev]\<rparr>, sp_copy h ev)) \<and>
   (\<forall>e. enqueue_dep dbug thd ev (rli, h) = Inl e \<longrightarrow>
      e = Assertion_failed \<and> dbug \<and> dep_lock rli \<noteq> Some thd)"
  by (auto simp: enqueue_dep_def mysql_mutex_assert_owner_def DBUG_ASSERT_def split: if_splits)

theorem enqueue_dep_appends_witness:
  "dep_lock (rli0\<lparr>dep_queue := [Some 1], dep_lock := Some 7\<rparr>) = Some 7 \<and>
   enqueue_dep True 7 (Some 2)
     (rli0\<lparr>dep_queue := [Some 1], dep_lock := Some 7\<rparr>,
      [1 \<mapsto> \<lparr>use_count = 1, wrapper = \<lparr>next_ev = None\<rparr>\<rparr>,
       2 \<mapsto> \<lparr>use_count = 1, wrapper = \<lparr>next_ev = None\<rparr>\<rparr>]) =
     Inr (True, rli0\<lparr>dep_queue := [Some 1, Some 2], dep_lock := Some 7\<rparr>,
      [1 \<mapsto> \<lparr>use_count = 1, wrapper = \<lparr>next_ev = None\<rparr>\<rparr>,
       2 \<mapsto> \<lparr>use_count = 2, wrapper = \<lparr>next_ev = None\<rparr>\<rparr>]) \<and>
   enqueue_dep True 8 (Some 2)
     (rli0\<lparr>dep_queue := [Some 1], dep_lock := Some 7\<rparr>,
      [1 \<mapsto> \<lparr>use_count = 1, wrapper = \<lparr>next_ev = None\<rparr>\<rparr>,
       2 \<mapsto> \<lparr>use_count = 1, wrapper = \<lparr>next_ev = None\<rparr>\<rparr>]) =
     Inl Assertion_failed"
proof -
  let ?rli = "rli0\<lparr>dep_queue := [Some 1], dep_lock := Some 7\<rparr>"
  let ?h = "[1 \<mapsto> \<lparr>use_count = 1, wrapper = \<lparr>next_ev = None\<rparr>\<rparr>,
       2 \<mapsto> \<lparr>use_count = 1, wrapper = \<lparr>next_ev = None\<rparr>\<rparr>] :: unit event_store"
  have lk: "dep_lock ?rli = Some 7" by simp
  have ok: "enqueue_dep True 7 (Some 2) (?rli, ?h) =
      Inr (True, ?rli\<lparr>dep_queue := dep_queue ?rli @ [Some 2]\<rparr>, sp_copy ?h (Some 2))"
    using enqueue_dep_appends [of ?rli 7 True "Some 2" ?h] lk by blast
  have "\<exists>e. enqueue_dep True 8 (Some 2) (?rli, ?h) = Inl e"
    by (simp add: enqueue_dep_def mysql_mutex_assert_owner_def DBUG_ASSERT_def)
  then have fl: "enqueue_dep True 8 (Some 2) (?rli, ?h) = Inl Assertion_failed"
    using enqueue_dep_appends [of ?rli 8 True "Some 2" ?h] by blast
  have cp: "sp_copy ?h (Some 2) =
      [1 \<mapsto> \<lparr>use_count = 1, wrapper = \<lparr>next_ev = None\<rparr>\<rparr>,
       2 \<mapsto> \<lparr>use_count = 2, wrapper = \<lparr>next_ev = None\<rparr>\<rparr>]"
    by (simp add: sp_copy_def numeral_2_eq_2)
  show ?thesis using lk ok fl unfolding cp by simp
qed

text \<open>
  C4: called by the owner of \<open>dep_lock\<close>, \<open>dequeue_dep\<close> returns null on an empty
  queue and leaves the state as it is, and otherwise removes and returns the front of
  the queue; so after any groups are enqueued, dequeuing returns what the queue held
  followed by these groups, in the order they were enqueued.
\<close>

theorem dequeue_dep_fifo:
  assumes "dep_lock rli = Some thd"
  shows "(dep_queue rli = [] \<longrightarrow> dequeue_dep dbug thd rli = Inr (None, rli)) \<and>
    (\<forall>ev rest. dep_queue rli = ev # rest \<longrightarrow>
       dequeue_dep dbug thd rli = Inr (ev, rli\<lparr>dep_queue := rest\<rparr>)) \<and>
    (\<forall>evs h. \<exists>rli' h'. enqueue_deps dbug thd evs (rli, h) = Inr (rli', h') \<and>
       dequeue_deps dbug thd (length (dep_queue rli) + length evs) rli' =
         Inr (dep_queue rli @ evs, rli\<lparr>dep_queue := []\<rparr>))"
  using assms
  by (simp add: dequeue_dep_owner enqueue_deps_owner dequeue_deps_owner)

theorem dequeue_dep_fifo_witness:
  "dep_lock (rli0\<lparr>dep_lock := Some 7\<rparr>) = Some 7 \<and>
   dequeue_dep True 7 (rli0\<lparr>dep_lock := Some 7\<rparr>) = Inr (None, rli0\<lparr>dep_lock := Some 7\<rparr>) \<and>
   dequeue_dep True 7 (rli0\<lparr>dep_queue := [Some 1, Some 2], dep_lock := Some 7\<rparr>) =
     Inr (Some 1, rli0\<lparr>dep_queue := [Some 1, Some 2], dep_lock := Some 7, dep_queue := [Some 2]\<rparr>) \<and>
   (\<exists>rli' h'. enqueue_deps True 7 [Some 3, Some 4]
        (rli0\<lparr>dep_queue := [Some 1, Some 2], dep_lock := Some 7\<rparr>, Map.empty :: unit event_store) =
          Inr (rli', h') \<and>
      dequeue_deps True 7 4 rli' =
        Inr ([Some 1, Some 2, Some 3, Some 4],
             rli0\<lparr>dep_queue := [Some 1, Some 2], dep_lock := Some 7, dep_queue := []\<rparr>))"
proof -
  let ?e = "rli0\<lparr>dep_lock := Some 7\<rparr>"
  let ?q = "rli0\<lparr>dep_queue := [Some 1, Some 2], dep_lock := Some 7\<rparr>"
  have l1: "dep_lock ?e = Some 7" by simp
  have l2: "dep_lock ?q = Some 7" by simp
  have e0: "dep_queue ?e = []" by (simp add: rli0_def)
  have q0: "dep_queue ?q = [Some 1, Some 2]" by simp
  have a: "dequeue_dep True 7 ?e = Inr (None, ?e)"
    using dequeue_dep_fifo [OF l1, of True] e0 by blast
  have b: "dequeue_dep True 7 ?q = Inr (Some 1, ?q\<lparr>dep_queue := [Some 2]\<rparr>)"
    using dequeue_dep_fifo [OF l2, of True] q0 by blast
  have n: "length (dep_queue ?q) + length [Some 3, Some (4::nat)] = 4"
    and ap: "dep_queue ?q @ [Some 3, Some 4] = [Some 1, Some 2, Some 3, Some 4]"
    by simp_all
  have c: "\<exists>rli' h'. enqueue_deps True 7 [Some 3, Some 4] (?q, Map.empty :: unit event_store) =
        Inr (rli', h') \<and>
      dequeue_deps True 7 (length (dep_queue ?q) + length [Some 3, Some (4::nat)]) rli' =
        Inr (dep_queue ?q @ [Some 3, Some 4], ?q\<lparr>dep_queue := []\<rparr>)"
    using dequeue_dep_fifo [OF l2, of True] by blast
  show ?thesis using l1 a b c unfolding n ap by blast
qed

section \<open>Releasing a group: proofs\<close>

lemma sp_release_None: "sp_release h None d = Some (h, d)"
  by (subst sp_release.simps) simp

lemma sp_release_absent: "h a = None \<Longrightarrow> sp_release h (Some a) d = Some (h, d)"
  by (subst sp_release.simps) simp

lemma sp_release_shared:
  "h a = Some c \<Longrightarrow> 1 < use_count c \<Longrightarrow>
   sp_release h (Some a) d = Some (h(a \<mapsto> c\<lparr>use_count := use_count c - 1\<rparr>), d)"
  by (subst sp_release.simps) simp

lemma sp_release_last:
  "h a = Some c \<Longrightarrow> \<not> 1 < use_count c \<Longrightarrow>
   sp_release h (Some a) d = sp_release (h(a := None)) (next_ev (wrapper c)) (Suc d)"
  by (subst sp_release.simps) simp

lemma cleanup_group_push_None:
  "cleanup_group_push h None events depth = Some (Inr (h, events, depth))"
  by (subst cleanup_group_push.simps) simp

lemma cleanup_group_push_Some:
  "h a = Some c \<Longrightarrow> sp_release (sp_copy h (next_ev (wrapper c))) (Some a) 0 = Some (h', d) \<Longrightarrow>
   cleanup_group_push h (Some a) events depth =
     cleanup_group_push h' (next_ev (wrapper c)) (a # events) (max depth d)"
  by (subst cleanup_group_push.simps) simp

lemma chain_fun: "chain h p as \<Longrightarrow> chain h p bs \<Longrightarrow> as = bs"
proof (induction as arbitrary: p bs)
  case Nil
  then show ?case by (cases bs) auto
next
  case (Cons a as)
  then show ?case by (cases bs) (auto split: option.splits)
qed

lemma chain_suffix:
  "chain h p as \<Longrightarrow> a \<in> set as \<Longrightarrow> \<exists>bs cs. as = bs @ a # cs \<and> chain h (Some a) (a # cs)"
proof (induction as arbitrary: p)
  case Nil
  then show ?case by simp
next
  case (Cons b as)
  show ?case
  proof (cases "a = b")
    case True
    with Cons.prems(1) have "chain h (Some a) (a # as)" by simp
    then show ?thesis using True by blast
  next
    case False
    with Cons.prems obtain c where "h b = Some c" "chain h (next_ev (wrapper c)) as" "a \<in> set as"
      by (auto split: option.splits)
    from Cons.IH [OF this(2,3)] obtain bs cs where "as = bs @ a # cs" "chain h (Some a) (a # cs)"
      by blast
    then have "b # as = (b # bs) @ a # cs" by simp
    with \<open>chain h (Some a) (a # cs)\<close> show ?thesis by blast
  qed
qed

lemma chain_distinct: "chain h p as \<Longrightarrow> distinct as"
proof (induction as arbitrary: p)
  case Nil
  then show ?case by simp
next
  case (Cons a as)
  from Cons.prems obtain c where c: "h a = Some c" and rest: "chain h (next_ev (wrapper c)) as"
    by (auto split: option.splits)
  have "a \<notin> set as"
  proof
    assume "a \<in> set as"
    from chain_suffix [OF rest this] obtain bs cs where as: "as = bs @ a # cs"
      and ch: "chain h (Some a) (a # cs)" by blast
    from Cons.prems have "chain h (Some a) (a # as)" by simp
    from chain_fun [OF this ch] as show False by simp
  qed
  with Cons.IH [OF rest] show ?case by simp
qed

lemma chain_cong:
  "\<forall>a \<in> set as. (\<exists>c c'. h a = Some c \<and> h' a = Some c' \<and> next_ev (wrapper c') = next_ev (wrapper c) \<and>
      (0 < use_count c \<longrightarrow> 0 < use_count c')) \<Longrightarrow>
   chain h p as \<Longrightarrow> chain h' p as"
  by (induction as arbitrary: p) (auto split: option.splits)

lemma push_release_step:
  assumes c: "h a = Some c" and rest: "chain h (next_ev (wrapper c)) as" and a: "a \<notin> set as"
  shows "sp_release (sp_copy h (next_ev (wrapper c))) (Some a) 0 =
     Some (if 1 < use_count c
           then ((sp_copy h (next_ev (wrapper c)))(a \<mapsto> c\<lparr>use_count := use_count c - 1\<rparr>), 0)
           else (h(a := None), 1))"
proof (cases as)
  case Nil
  with rest have n: "next_ev (wrapper c) = None" by simp
  show ?thesis
    using c by (simp add: n sp_copy_def sp_release_shared sp_release_last sp_release_None)
next
  case (Cons b bs)
  with rest obtain cb where n: "next_ev (wrapper c) = Some b" and cb: "h b = Some cb"
    and pos: "0 < use_count cb"
    by (auto split: option.splits)
  from a Cons have ne: "a \<noteq> b" by auto
  let ?h1 = "h(b \<mapsto> cb\<lparr>use_count := use_count cb + 1\<rparr>)"
  have cp: "sp_copy h (next_ev (wrapper c)) = ?h1"
    by (simp add: sp_copy_def n cb)
  have a1: "?h1 a = Some c" using c ne by simp
  show ?thesis
  proof (cases "1 < use_count c")
    case True
    then show ?thesis
      using sp_release_shared [of ?h1 a c 0] a1 by (simp add: cp)
  next
    case False
    have b1: "(?h1(a := None)) b = Some (cb\<lparr>use_count := use_count cb + 1\<rparr>)"
      using ne by simp
    have e: "(?h1(a := None))(b \<mapsto> cb) = h(a := None)"
      using cb ne by (auto simp: fun_eq_iff)
    have r1: "sp_release ?h1 (Some a) 0 = sp_release (?h1(a := None)) (Some b) (Suc 0)"
      using sp_release_last [of ?h1 a c 0] a1 False by (simp add: n)
    have r2: "sp_release (?h1(a := None)) (Some b) (Suc 0) = Some ((?h1(a := None))(b \<mapsto> cb), Suc 0)"
      using sp_release_shared [of "?h1(a := None)" b "cb\<lparr>use_count := use_count cb + 1\<rparr>" "Suc 0"] b1 pos
      by simp
    show ?thesis using False by (simp only: cp r1 r2 e) simp
  qed
qed

lemma sp_release_leaf:
  assumes "\<forall>a c. p = Some a \<and> h a = Some c \<longrightarrow> next_ev (wrapper c) = None"
  shows "\<exists>d' \<le> Suc d. sp_release h p d = Some (drop_owner h p, d')"
proof (cases p)
  case None
  then show ?thesis by (simp add: sp_release_None drop_owner_def)
next
  case (Some a)
  show ?thesis
  proof (cases "h a")
    case None
    with Some show ?thesis by (simp add: sp_release_absent drop_owner_def)
  next
    case c: (Some c)
    with assms Some have n: "next_ev (wrapper c) = None" by blast
    show ?thesis
    proof (cases "1 < use_count c")
      case True
      with Some c show ?thesis by (simp add: sp_release_shared drop_owner_def)
    next
      case False
      with Some c n show ?thesis
        by (simp add: sp_release_last sp_release_None drop_owner_def)
    qed
  qed
qed

lemma cleanup_group_pop_live:
  assumes a: "g a = Some c" and pos: "0 < use_count c"
    and ne: "next_ev (wrapper c) \<noteq> Some a"
    and leaf: "\<forall>b cb. next_ev (wrapper c) = Some b \<and> g b = Some cb \<longrightarrow> next_ev (wrapper cb) = None"
  shows "\<exists>d \<le> 1. \<forall>events depth. cleanup_group_pop g (a # events) depth =
     cleanup_group_pop
       ((drop_owner (g(a \<mapsto> c\<lparr>wrapper := (wrapper c)\<lparr>next_ev := None\<rparr>\<rparr>)) (next_ev (wrapper c)))
          (a \<mapsto> c\<lparr>wrapper := (wrapper c)\<lparr>next_ev := None\<rparr>\<rparr>))
       events (max depth d)"
proof -
  let ?c1 = "c\<lparr>use_count := Suc (use_count c), wrapper := (wrapper c)\<lparr>next_ev := None\<rparr>\<rparr>"
  let ?c2 = "c\<lparr>wrapper := (wrapper c)\<lparr>next_ev := None\<rparr>\<rparr>"
  let ?p = "next_ev (wrapper c)"
  let ?g1 = "g(a \<mapsto> ?c1)"
  have "\<forall>b cb. ?p = Some b \<and> ?g1 b = Some cb \<longrightarrow> next_ev (wrapper cb) = None"
    using leaf ne by auto
  from sp_release_leaf [OF this, of 0] obtain d1 where d1: "d1 \<le> Suc 0"
    and r1: "sp_release ?g1 ?p 0 = Some (drop_owner ?g1 ?p, d1)" by blast
  have a1: "drop_owner ?g1 ?p a = Some ?c1"
    using ne by (auto simp: drop_owner_def split: option.splits)
  have r2: "sp_release (drop_owner ?g1 ?p) (Some a) 0 =
      Some ((drop_owner ?g1 ?p)(a \<mapsto> ?c2), 0)"
    using sp_release_shared [of "drop_owner ?g1 ?p" a ?c1 0] a1 pos by simp
  have e: "(drop_owner ?g1 ?p)(a \<mapsto> ?c2) = (drop_owner (g(a \<mapsto> ?c2)) ?p)(a \<mapsto> ?c2)"
    using ne by (auto simp: drop_owner_def fun_eq_iff split: option.splits)
  have "\<forall>events depth. cleanup_group_pop g (a # events) depth =
      cleanup_group_pop ((drop_owner (g(a \<mapsto> ?c2)) ?p)(a \<mapsto> ?c2)) events (max depth d1)"
    using a by (simp add: r1 r2 e)
  with d1 show ?thesis by auto
qed

lemma cleanup_group_from_chain:
  "chain h p as \<Longrightarrow>
   \<exists>d \<le> 1. \<forall>events depth.
     cleanup_group_from h p events depth =
       map_option Inr (cleanup_group_pop (released_store h as) events (max depth d))"
proof (induction as arbitrary: h p)
  case Nil
  then have "p = None" by simp
  then have "\<forall>events depth. cleanup_group_from h p events depth =
       map_option Inr (cleanup_group_pop (released_store h []) events (max depth 0))"
    by (simp add: cleanup_group_from_def cleanup_group_push_None released_store_def)
  then show ?case by blast
next
  case (Cons a as)
  from Cons.prems obtain c where p: "p = Some a" and c: "h a = Some c"
    and pos: "0 < use_count c" and rest: "chain h (next_ev (wrapper c)) as"
    by (auto split: option.splits)
  from chain_distinct [OF Cons.prems] have a: "a \<notin> set as" by simp
  let ?p = "next_ev (wrapper c)"
  note step = push_release_step [OF c rest a]
  show ?case
  proof (cases "1 < use_count c")
    case True
    let ?h2 = "(sp_copy h ?p)(a \<mapsto> c\<lparr>use_count := use_count c - 1\<rparr>)"
    have rest2: "chain ?h2 ?p as"
    proof (rule chain_cong [OF _ rest])
      show "\<forall>x \<in> set as. \<exists>c c'. h x = Some c \<and> ?h2 x = Some c' \<and>
          next_ev (wrapper c') = next_ev (wrapper c) \<and> (0 < use_count c \<longrightarrow> 0 < use_count c')"
      proof
        fix x assume x: "x \<in> set as"
        with a have "x \<noteq> a" by auto
        moreover from chain_suffix [OF rest x] obtain cx where "h x = Some cx"
          by (auto split: option.splits)
        ultimately show "\<exists>c c'. h x = Some c \<and> ?h2 x = Some c' \<and>
          next_ev (wrapper c') = next_ev (wrapper c) \<and> (0 < use_count c \<longrightarrow> 0 < use_count c')"
          by (auto simp: sp_copy_def split: option.splits)
      qed
    qed
    from Cons.IH [OF rest2] obtain d2 where d2: "d2 \<le> 1"
      and ih: "\<And>events depth. cleanup_group_from ?h2 ?p events depth =
        map_option Inr (cleanup_group_pop (released_store ?h2 as) events (max depth d2))"
      by blast
    let ?g = "released_store ?h2 as"
    let ?c' = "c\<lparr>use_count := use_count c - 1\<rparr>"
    have ga: "?g a = Some ?c'" using a by (simp add: released_store_def)
    have pos': "0 < use_count ?c'" using True by simp
    have ne: "next_ev (wrapper ?c') \<noteq> Some a"
      using rest a by (cases as) auto
    have leaf: "\<forall>b cb. next_ev (wrapper ?c') = Some b \<and> ?g b = Some cb \<longrightarrow>
        next_ev (wrapper cb) = None"
    proof (intro allI impI)
      fix b cb assume b: "next_ev (wrapper ?c') = Some b \<and> ?g b = Some cb"
      with rest have "b \<in> set as" by (cases as) auto
      with b show "next_ev (wrapper cb) = None"
        by (auto simp: released_store_def let_go_def split: option.splits if_splits)
    qed
    have fin: "(drop_owner (?g(a \<mapsto> ?c'\<lparr>wrapper := (wrapper ?c')\<lparr>next_ev := None\<rparr>\<rparr>)) (next_ev (wrapper ?c')))
          (a \<mapsto> ?c'\<lparr>wrapper := (wrapper ?c')\<lparr>next_ev := None\<rparr>\<rparr>) = released_store h (a # as)"
    proof (rule ext)
      fix x
      show "((drop_owner (?g(a \<mapsto> ?c'\<lparr>wrapper := (wrapper ?c')\<lparr>next_ev := None\<rparr>\<rparr>)) (next_ev (wrapper ?c')))
          (a \<mapsto> ?c'\<lparr>wrapper := (wrapper ?c')\<lparr>next_ev := None\<rparr>\<rparr>)) x = released_store h (a # as) x"
      proof (cases as)
        case Nil
        with rest have "?p = None" by simp
        with Nil c True show ?thesis
          by (auto simp: released_store_def let_go_def drop_owner_def sp_copy_def)
      next
        case (Cons b bs)
        with rest obtain cb where n: "?p = Some b" and cb: "h b = Some cb"
          and posb: "0 < use_count cb"
          by (auto split: option.splits)
        from a Cons have ab: "a \<noteq> b" by auto
        from Cons n cb posb c True ab a show ?thesis
          by (auto simp: released_store_def let_go_def drop_owner_def sp_copy_def)
      qed
    qed
    from cleanup_group_pop_live [OF ga pos' ne leaf]
    obtain d where d: "d \<le> 1" and
      pp: "\<And>events depth. cleanup_group_pop ?g (a # events) depth =
          cleanup_group_pop (released_store h (a # as)) events (max depth d)"
      unfolding fin by blast
    have "\<forall>events depth. cleanup_group_from h p events depth =
       map_option Inr (cleanup_group_pop (released_store h (a # as)) events (max depth (max d2 d)))"
    proof (intro allI)
      fix events depth
      have "cleanup_group_push h (Some a) events depth =
          cleanup_group_push ?h2 ?p (a # events) (max depth 0)"
        using step True c by (intro cleanup_group_push_Some) simp_all
      then have "cleanup_group_from h p events depth = cleanup_group_from ?h2 ?p (a # events) depth"
        by (simp add: cleanup_group_from_def p)
      also have "\<dots> = map_option Inr (cleanup_group_pop ?g (a # events) (max depth d2))"
        by (rule ih)
      finally show "cleanup_group_from h p events depth =
       map_option Inr (cleanup_group_pop (released_store h (a # as)) events (max depth (max d2 d)))"
        by (simp only: pp max.assoc)
    qed
    moreover have "max d2 d \<le> 1" using d d2 by simp
    ultimately show ?thesis by blast
  next
    case False
    let ?h2 = "h(a := None)"
    have rest2: "chain ?h2 ?p as"
    proof (rule chain_cong [OF _ rest])
      show "\<forall>x \<in> set as. \<exists>c c'. h x = Some c \<and> ?h2 x = Some c' \<and>
          next_ev (wrapper c') = next_ev (wrapper c) \<and> (0 < use_count c \<longrightarrow> 0 < use_count c')"
      proof
        fix x assume x: "x \<in> set as"
        with a have "x \<noteq> a" by auto
        moreover from chain_suffix [OF rest x] obtain cx where "h x = Some cx"
          by (auto split: option.splits)
        ultimately show "\<exists>c c'. h x = Some c \<and> ?h2 x = Some c' \<and>
          next_ev (wrapper c') = next_ev (wrapper c) \<and> (0 < use_count c \<longrightarrow> 0 < use_count c')"
          by auto
      qed
    qed
    from Cons.IH [OF rest2] obtain d2 where d2: "d2 \<le> 1"
      and ih: "\<And>events depth. cleanup_group_from ?h2 ?p events depth =
        map_option Inr (cleanup_group_pop (released_store ?h2 as) events (max depth d2))"
      by blast
    have fin: "released_store ?h2 as = released_store h (a # as)"
      using a c False by (auto simp: released_store_def let_go_def fun_eq_iff)
    have gone: "released_store h (a # as) a = None"
      using c False by (simp add: released_store_def let_go_def)
    have "\<forall>events depth. cleanup_group_from h p events depth =
       map_option Inr (cleanup_group_pop (released_store h (a # as)) events (max depth 1))"
    proof (intro allI)
      fix events depth
      have "cleanup_group_push h (Some a) events depth =
          cleanup_group_push ?h2 ?p (a # events) (max depth 1)"
        using step False c by (intro cleanup_group_push_Some) simp_all
      then have "cleanup_group_from h p events depth =
          cleanup_group_from ?h2 ?p (a # events) (max depth 1)"
        by (simp add: cleanup_group_from_def p)
      also have "\<dots> = map_option Inr
          (cleanup_group_pop (released_store h (a # as)) (a # events) (max (max depth 1) d2))"
        by (simp only: ih fin)
      also have "\<dots> = map_option Inr
          (cleanup_group_pop (released_store h (a # as)) events (max (max depth 1) d2))"
        using gone by simp
      also have "max (max depth 1) d2 = max depth 1" using d2 by simp
      finally show "cleanup_group_from h p events depth =
       map_option Inr (cleanup_group_pop (released_store h (a # as)) events (max depth 1))" .
    qed
    then show ?thesis by blast
  qed
qed

lemma cleanup_group_chain:
  assumes "chain h p as"
  shows "\<exists>d \<le> 1. cleanup_group h p = Some (Inr (released_store h as, d))"
proof -
  from cleanup_group_from_chain [OF assms] obtain d where "d \<le> 1"
    and "cleanup_group_from h p [] 0 =
      map_option Inr (cleanup_group_pop (released_store h as) [] (max 0 d))" by blast
  then show ?thesis by (auto simp: cleanup_group_def)
qed

lemma cleanup_group_push_chain:
  "chain h p as \<Longrightarrow>
   \<exists>h' d. cleanup_group_push h p events depth = Some (Inr (h', rev as @ events, d))"
proof (induction as arbitrary: h p events depth)
  case Nil
  then show ?case by (simp add: cleanup_group_push_None)
next
  case (Cons a as)
  from Cons.prems obtain c where p: "p = Some a" and c: "h a = Some c"
    and rest: "chain h (next_ev (wrapper c)) as"
    by (auto split: option.splits)
  from chain_distinct [OF Cons.prems] have a: "a \<notin> set as" by simp
  let ?p = "next_ev (wrapper c)"
  let ?h2 = "if 1 < use_count c then (sp_copy h ?p)(a \<mapsto> c\<lparr>use_count := use_count c - 1\<rparr>)
      else h(a := None)"
  let ?d = "if 1 < use_count c then 0 else 1 :: nat"
  have step: "sp_release (sp_copy h ?p) (Some a) 0 = Some (?h2, ?d)"
    using push_release_step [OF c rest a] by simp
  have rest2: "chain ?h2 ?p as"
  proof (rule chain_cong [OF _ rest])
    show "\<forall>x \<in> set as. \<exists>c c'. h x = Some c \<and> ?h2 x = Some c' \<and>
        next_ev (wrapper c') = next_ev (wrapper c) \<and> (0 < use_count c \<longrightarrow> 0 < use_count c')"
    proof
      fix x assume x: "x \<in> set as"
      with a have "x \<noteq> a" by auto
      moreover from chain_suffix [OF rest x] obtain cx where "h x = Some cx"
        by (auto split: option.splits)
      ultimately show "\<exists>c c'. h x = Some c \<and> ?h2 x = Some c' \<and>
        next_ev (wrapper c') = next_ev (wrapper c) \<and> (0 < use_count c \<longrightarrow> 0 < use_count c')"
        by (auto simp: sp_copy_def split: option.splits)
    qed
  qed
  have "cleanup_group_push h (Some a) events depth =
      cleanup_group_push ?h2 ?p (a # events) (max depth ?d)"
    using step c by (intro cleanup_group_push_Some)
  with Cons.IH [OF rest2, of "a # events" "max depth ?d"] show ?case
    by (simp add: p)
qed

lemma sp_release_cascade:
  "chain h p as \<Longrightarrow> \<forall>a \<in> set as. \<forall>c. h a = Some c \<longrightarrow> use_count c = 1 \<Longrightarrow>
   sp_release h p d = Some (\<lambda>a. if a \<in> set as then None else h a, d + length as)"
proof (induction as arbitrary: h p d)
  case Nil
  then show ?case by (simp add: sp_release_None)
next
  case (Cons a as)
  from Cons.prems(1) obtain c where p: "p = Some a" and c: "h a = Some c"
    and rest: "chain h (next_ev (wrapper c)) as"
    by (auto split: option.splits)
  from chain_distinct [OF Cons.prems(1)] have a: "a \<notin> set as" by simp
  from Cons.prems(2) c have one: "\<not> 1 < use_count c" by simp
  have rest2: "chain (h(a := None)) (next_ev (wrapper c)) as"
  proof (rule chain_cong [OF _ rest])
    show "\<forall>x \<in> set as. \<exists>c c'. h x = Some c \<and> (h(a := None)) x = Some c' \<and>
        next_ev (wrapper c') = next_ev (wrapper c) \<and> (0 < use_count c \<longrightarrow> 0 < use_count c')"
    proof
      fix x assume x: "x \<in> set as"
      with a have "x \<noteq> a" by auto
      moreover from chain_suffix [OF rest x] obtain cx where "h x = Some cx"
        by (auto split: option.splits)
      ultimately show "\<exists>c c'. h x = Some c \<and> (h(a := None)) x = Some c' \<and>
        next_ev (wrapper c') = next_ev (wrapper c) \<and> (0 < use_count c \<longrightarrow> 0 < use_count c')"
        by auto
    qed
  qed
  have ones: "\<forall>x \<in> set as. \<forall>c. (h(a := None)) x = Some c \<longrightarrow> use_count c = 1"
    using Cons.prems(2) by auto
  have "sp_release h p d = sp_release (h(a := None)) (next_ev (wrapper c)) (Suc d)"
    using sp_release_last [of h a c d] c one by (simp add: p)
  also have "\<dots> = Some (\<lambda>x. if x \<in> set as then None else (h(a := None)) x, Suc d + length as)"
    by (rule Cons.IH [OF rest2 ones])
  also have "(\<lambda>x. if x \<in> set as then None else (h(a := None)) x) =
      (\<lambda>x. if x \<in> set (a # as) then None else h x)"
    by (auto simp: fun_eq_iff)
  finally show ?case by simp
qed

lemma cleanup_group_push_self_loop_aux:
  assumes "cleanup_group_push h p events depth = Some y"
  shows "h = [1 \<mapsto> \<lparr>use_count = 2, wrapper = \<lparr>next_ev = Some 1\<rparr>\<rparr>] \<and> p = Some 1 \<longrightarrow> False"
proof (rule cleanup_group_push.raw_induct
    [where P = "\<lambda>h p events depth y.
       h = [1 \<mapsto> \<lparr>use_count = 2, wrapper = \<lparr>next_ev = Some 1\<rparr>\<rparr>] \<and> p = Some 1 \<longrightarrow> False",
     OF _ assms])
  let ?h = "[1 \<mapsto> \<lparr>use_count = 2, wrapper = \<lparr>next_ev = Some 1\<rparr>\<rparr>] :: unit event_store"
  fix f :: "unit event_store \<Rightarrow> event_ptr \<Rightarrow> nat list \<Rightarrow> nat \<Rightarrow>
      (error + unit event_store \<times> nat list \<times> nat) option"
    and h p events depth y
  assume IH: "\<And>h p events depth y. f h p events depth = Some y \<Longrightarrow> h = ?h \<and> p = Some 1 \<longrightarrow> False"
    and step: "(case p of
        None \<Rightarrow> Some (Inr (h, events, depth))
      | Some a \<Rightarrow>
          (case h a of
             None \<Rightarrow> Some (Inl Dangling_pointer)
           | Some c \<Rightarrow>
               (case sp_release (sp_copy h (next_ev (wrapper c))) p 0 of
                  None \<Rightarrow> None
                | Some (h', d) \<Rightarrow> f h' (next_ev (wrapper c)) (a # events) (max depth d)))) = Some y"
  have r: "sp_release (sp_copy ?h (Some 1)) (Some 1) 0 = Some (?h, 0)"
    by (simp add: sp_copy_def sp_release_shared fun_eq_iff)
  show "h = ?h \<and> p = Some 1 \<longrightarrow> False"
  proof
    assume hp: "h = ?h \<and> p = Some 1"
    with step r have "f ?h (Some 1) (1 # events) (max depth 0) = Some y" by simp
    from IH [OF this] show False by simp
  qed
qed

lemma cleanup_group_push_self_loop:
  "cleanup_group_push [1 \<mapsto> \<lparr>use_count = 2, wrapper = \<lparr>next_ev = Some 1\<rparr>\<rparr>] (Some 1) events depth = None"
  using cleanup_group_push_self_loop_aux by (metis not_Some_eq)

lemma cleanup_group_pop_order_example:
  "cleanup_group_push
     [1 \<mapsto> \<lparr>use_count = 2, wrapper = \<lparr>next_ev = Some 2\<rparr>\<rparr>,
      2 \<mapsto> \<lparr>use_count = 1, wrapper = \<lparr>next_ev = Some 3\<rparr>\<rparr>,
      3 \<mapsto> \<lparr>use_count = 1, wrapper = \<lparr>next_ev = None\<rparr>\<rparr>] (Some 1) [] 0 =
     Some (Inr ([1 \<mapsto> \<lparr>use_count = 1, wrapper = \<lparr>next_ev = Some 2\<rparr>\<rparr>,
                 2 \<mapsto> \<lparr>use_count = 1, wrapper = \<lparr>next_ev = Some 3\<rparr>\<rparr>,
                 3 \<mapsto> \<lparr>use_count = 1, wrapper = \<lparr>next_ev = None\<rparr>\<rparr>], [3, 2, 1], 0))"
  "cleanup_group_pop
     [1 \<mapsto> \<lparr>use_count = 1, wrapper = \<lparr>next_ev = Some 2\<rparr>\<rparr>,
      2 \<mapsto> \<lparr>use_count = 1, wrapper = \<lparr>next_ev = Some 3\<rparr>\<rparr>,
      3 \<mapsto> \<lparr>use_count = 1, wrapper = \<lparr>next_ev = None\<rparr>\<rparr>] [3, 2, 1] 0 =
     Some ([1 \<mapsto> \<lparr>use_count = 1, wrapper = \<lparr>next_ev = None\<rparr>\<rparr>], 1)"
  "cleanup_group_pop
     [1 \<mapsto> \<lparr>use_count = 1, wrapper = \<lparr>next_ev = Some 2\<rparr>\<rparr>,
      2 \<mapsto> \<lparr>use_count = 1, wrapper = \<lparr>next_ev = Some 3\<rparr>\<rparr>,
      3 \<mapsto> \<lparr>use_count = 1, wrapper = \<lparr>next_ev = None\<rparr>\<rparr>] [1, 2, 3] 0 =
     Some ([1 \<mapsto> \<lparr>use_count = 1, wrapper = \<lparr>next_ev = None\<rparr>\<rparr>], 2)"
  by (simp_all add: cleanup_group_push.simps sp_release.simps sp_copy_def fun_eq_iff)

lemma chain_live: "chain h p as \<Longrightarrow> a \<in> set as \<Longrightarrow> \<exists>c. h a = Some c \<and> 0 < use_count c"
  by (induction as arbitrary: p) (auto split: option.splits)

text \<open>
  C6: on a finite chain of events that ends in null, whatever the number of owners of
  each event, \<open>cleanup_group\<close> returns. Its first loop stacks every event of the chain,
  the last one on top. No release it makes nests the destructors of more than one
  event, however long the chain is. On return every event of the chain has lost the
  owner that the chain, or the argument, was: an event with another owner lives on with
  a null link, an event without one is destroyed; and no event outside the chain has
  changed.
\<close>

theorem cleanup_group_releases_chain:
  assumes "chain h begin_event as"
  shows "distinct as \<and>
    (\<exists>h1 d1. cleanup_group_push h begin_event [] 0 = Some (Inr (h1, rev as, d1))) \<and>
    (\<exists>h' depth. cleanup_group h begin_event = Some (Inr (h', depth)) \<and> depth \<le> 1 \<and>
       (\<forall>a \<in> set as. \<exists>c. h a = Some c \<and>
          h' a = (if 2 \<le> use_count c
                  then Some (c\<lparr>use_count := use_count c - 1,
                              wrapper := (wrapper c)\<lparr>next_ev := None\<rparr>\<rparr>)
                  else None)) \<and>
       (\<forall>a. a \<notin> set as \<longrightarrow> h' a = h a))"
proof -
  have live: "\<forall>a \<in> set as. \<exists>c. h a = Some c"
    using chain_live [OF assms] by blast
  from cleanup_group_chain [OF assms] obtain d where d: "d \<le> 1"
    and r: "cleanup_group h begin_event = Some (Inr (released_store h as, d))" by blast
  have 1: "\<forall>a \<in> set as. \<exists>c. h a = Some c \<and>
      released_store h as a = (if 2 \<le> use_count c
                  then Some (c\<lparr>use_count := use_count c - 1,
                              wrapper := (wrapper c)\<lparr>next_ev := None\<rparr>\<rparr>)
                  else None)"
  proof
    fix a assume "a \<in> set as"
    with live obtain c where c: "h a = Some c" by blast
    with \<open>a \<in> set as\<close> have "released_store h as a = (if 2 \<le> use_count c
                  then Some (c\<lparr>use_count := use_count c - 1,
                              wrapper := (wrapper c)\<lparr>next_ev := None\<rparr>\<rparr>)
                  else None)"
      by (simp add: released_store_def let_go_def)
    with c show "\<exists>c. h a = Some c \<and>
      released_store h as a = (if 2 \<le> use_count c
                  then Some (c\<lparr>use_count := use_count c - 1,
                              wrapper := (wrapper c)\<lparr>next_ev := None\<rparr>\<rparr>)
                  else None)" by blast
  qed
  have 2: "\<forall>a. a \<notin> set as \<longrightarrow> released_store h as a = h a"
    by (simp add: released_store_def)
  from cleanup_group_push_chain [OF assms, of "[]" 0]
  have 3: "\<exists>h1 d1. cleanup_group_push h begin_event [] 0 = Some (Inr (h1, rev as, d1))"
    by simp
  from chain_distinct [OF assms] 3 r d 1 2 show ?thesis by blast
qed

theorem cleanup_group_releases_chain_witness:
  "chain [1 \<mapsto> \<lparr>use_count = 2, wrapper = \<lparr>next_ev = Some 2\<rparr>\<rparr>,
          2 \<mapsto> \<lparr>use_count = 1, wrapper = \<lparr>next_ev = Some 3\<rparr>\<rparr>,
          3 \<mapsto> \<lparr>use_count = 2, wrapper = \<lparr>next_ev = None\<rparr>\<rparr>] (Some 1) [1, 2, 3] \<and>
   (\<exists>h' depth.
      cleanup_group [1 \<mapsto> \<lparr>use_count = 2, wrapper = \<lparr>next_ev = Some 2\<rparr>\<rparr>,
          2 \<mapsto> \<lparr>use_count = 1, wrapper = \<lparr>next_ev = Some 3\<rparr>\<rparr>,
          3 \<mapsto> \<lparr>use_count = 2, wrapper = \<lparr>next_ev = None\<rparr>\<rparr>] (Some 1) = Some (Inr (h', depth)) \<and>
      depth \<le> 1 \<and>
      h' 1 = Some \<lparr>use_count = 1, wrapper = \<lparr>next_ev = None\<rparr>\<rparr> \<and>
      h' 2 = None \<and>
      h' 3 = Some \<lparr>use_count = 1, wrapper = \<lparr>next_ev = None\<rparr>\<rparr> \<and>
      h' 4 = None)"
proof -
  let ?h = "[1 \<mapsto> \<lparr>use_count = 2, wrapper = \<lparr>next_ev = Some 2\<rparr>\<rparr>,
          2 \<mapsto> \<lparr>use_count = 1, wrapper = \<lparr>next_ev = Some 3\<rparr>\<rparr>,
          3 \<mapsto> \<lparr>use_count = 2, wrapper = \<lparr>next_ev = None\<rparr>\<rparr>] :: unit event_store"
  have c: "chain ?h (Some 1) [1, 2, 3]" by simp
  from cleanup_group_releases_chain [OF c] obtain h' depth where
    r: "cleanup_group ?h (Some 1) = Some (Inr (h', depth))" and d: "depth \<le> 1"
    and i: "\<forall>a \<in> set [1, 2, 3]. \<exists>c. ?h a = Some c \<and>
          h' a = (if 2 \<le> use_count c
                  then Some (c\<lparr>use_count := use_count c - 1,
                              wrapper := (wrapper c)\<lparr>next_ev := None\<rparr>\<rparr>)
                  else None)"
    and o: "\<forall>a. a \<notin> set [1, 2, 3] \<longrightarrow> h' a = ?h a"
    by blast
  from i have "h' 1 = Some \<lparr>use_count = 1, wrapper = \<lparr>next_ev = None\<rparr>\<rparr>"
    and "h' 2 = None" and "h' 3 = Some \<lparr>use_count = 1, wrapper = \<lparr>next_ev = None\<rparr>\<rparr>"
    by simp_all
  moreover from o have "h' 4 = None" by simp
  ultimately show ?thesis using c r d by blast
qed

section \<open>Tearing the dependency tracker down: proofs\<close>

lemma sp_release_finite:
  "finite (dom h) \<Longrightarrow> \<exists>h' d'. sp_release h p d = Some (h', d') \<and> dom h' \<subseteq> dom h"
proof (induction "card (dom h)" arbitrary: h p d rule: less_induct)
  case less
  show ?case
  proof (cases p)
    case None
    then show ?thesis by (simp add: sp_release_None)
  next
    case (Some a)
    show ?thesis
    proof (cases "h a")
      case None
      with Some show ?thesis by (simp add: sp_release_absent)
    next
      case c: (Some c)
      show ?thesis
      proof (cases "1 < use_count c")
        case True
        with Some c show ?thesis by (auto simp: sp_release_shared)
      next
        case False
        from c have "a \<in> dom h" by auto
        with less.prems have "card (dom h - {a}) < card (dom h)"
          by (rule card_Diff1_less)
        then have "card (dom (h(a := None))) < card (dom h)"
          by (simp only: dom_fun_upd simp_thms if_True)
        moreover have "finite (dom (h(a := None)))" using less.prems by simp
        ultimately obtain h' d' where
          "sp_release (h(a := None)) (next_ev (wrapper c)) (Suc d) = Some (h', d')"
          "dom h' \<subseteq> dom (h(a := None))"
          using less.hyps by blast
        with Some c False show ?thesis
          by (auto simp: sp_release_last [of h a c d])
      qed
    qed
  qed
qed

lemma sp_release_all_finite:
  "finite (dom h) \<Longrightarrow> \<exists>h'. sp_release_all h ps = Some h' \<and> dom h' \<subseteq> dom h"
proof (induction ps arbitrary: h)
  case Nil
  then show ?case by simp
next
  case (Cons p ps)
  from sp_release_finite [OF Cons.prems, of p 0] obtain h1 d1 where
    r: "sp_release h p 0 = Some (h1, d1)" and s: "dom h1 \<subseteq> dom h" by blast
  from Cons.prems s have "finite (dom h1)" by (rule finite_subset [rotated])
  from Cons.IH [OF this] obtain h' where "sp_release_all h1 ps = Some h'" "dom h' \<subseteq> dom h1"
    by blast
  with r s show ?case by auto
qed

lemma dom_released_store: "dom (released_store h as) \<subseteq> dom h"
  by (auto simp: released_store_def split: if_splits option.splits)

lemma dom_sp_copy: "dom (sp_copy h p) = dom h"
  by (auto simp: sp_copy_def split: option.splits if_splits)

lemma chain_sp_copy: "chain h p as \<Longrightarrow> chain (sp_copy h q) p as"
proof (rule chain_cong)
  assume c: "chain h p as"
  show "\<forall>a \<in> set as. \<exists>c c'. h a = Some c \<and> sp_copy h q a = Some c' \<and>
      next_ev (wrapper c') = next_ev (wrapper c) \<and> (0 < use_count c \<longrightarrow> 0 < use_count c')"
  proof
    fix a assume "a \<in> set as"
    from chain_live [OF c this] obtain ca where "h a = Some ca" by blast
    then show "\<exists>c c'. h a = Some c \<and> sp_copy h q a = Some c' \<and>
      next_ev (wrapper c') = next_ev (wrapper c) \<and> (0 < use_count c \<longrightarrow> 0 < use_count c')"
      by (auto simp: sp_copy_def split: option.splits)
  qed
qed

lemma chain_head: "chain h p as \<Longrightarrow> p = None \<or> (\<exists>a. p = Some a \<and> a \<in> set as)"
  by (cases as) auto

lemma clear_dep_groups_chains:
  "list_all2 (chain h) q ass \<Longrightarrow> distinct (concat ass) \<Longrightarrow>
   \<exists>h'. clear_dep_groups h q = Some (Inr h') \<and> dom h' \<subseteq> dom h"
proof (induction q arbitrary: h ass)
  case Nil
  then show ?case by simp
next
  case (Cons b q)
  from Cons.prems(1) obtain as ass' where ass: "ass = as # ass'" and b: "chain h b as"
    and rest: "list_all2 (chain h) q ass'"
    by (auto simp: list_all2_Cons1)
  from Cons.prems(2) ass have d': "distinct (concat ass')"
    and disj: "\<forall>as' \<in> set ass'. set as \<inter> set as' = {}"
    by auto
  let ?h0 = "sp_copy h b"
  let ?h1 = "released_store ?h0 as"
  from cleanup_group_chain [OF chain_sp_copy [OF b]] obtain d where
    r: "cleanup_group ?h0 b = Some (Inr (?h1, d))" by blast
  have out: "?h1 x = h x" if "x \<notin> set as" for x
    using that chain_head [OF b]
    by (auto simp: released_store_def sp_copy_def split: option.splits)
  have "list_all2 (chain ?h1) q ass'"
  proof (rule list.rel_mono_strong [OF rest])
    fix b' as' assume "as' \<in> set ass'" and c: "chain h b' as'"
    with disj have dj: "set as \<inter> set as' = {}" by blast
    show "chain ?h1 b' as'"
    proof (rule chain_cong [OF _ c])
      show "\<forall>a \<in> set as'. \<exists>c c'. h a = Some c \<and> ?h1 a = Some c' \<and>
          next_ev (wrapper c') = next_ev (wrapper c) \<and> (0 < use_count c \<longrightarrow> 0 < use_count c')"
      proof
        fix a assume a: "a \<in> set as'"
        with dj have "a \<notin> set as" by auto
        from out [OF this] chain_live [OF c a]
        show "\<exists>c c'. h a = Some c \<and> ?h1 a = Some c' \<and>
          next_ev (wrapper c') = next_ev (wrapper c) \<and> (0 < use_count c \<longrightarrow> 0 < use_count c')"
          by auto
      qed
    qed
  qed
  from Cons.IH [OF this d'] obtain h' where
    "clear_dep_groups ?h1 q = Some (Inr h')" "dom h' \<subseteq> dom ?h1" by blast
  moreover have "dom ?h1 \<subseteq> dom h"
    using dom_released_store [of ?h0 as] by (simp add: dom_sp_copy)
  ultimately show ?case using r by auto
qed

lemma clear_dep_completes:
  assumes "need_dep_lock \<longrightarrow> dep_lock rli = None"
    and "dep_key_lookup_mutex rli = None"
    and "dbug \<longrightarrow> length (dep_queue rli) \<le> unat (num_in_flight_trx rli)"
    and "list_all2 (chain h) (dep_queue rli) ass" and "distinct (concat ass)"
    and "finite (dom h)"
  shows "\<exists>rli' h'. clear_dep dbug thd need_dep_lock (rli, h) = Some (Inr (rli', h'))"
proof -
  from clear_dep_groups_chains [OF assms(4,5)] obtain h1 where
    1: "clear_dep_groups h (dep_queue rli) = Some (Inr h1)" and d1: "dom h1 \<subseteq> dom h" by blast
  from assms(6) d1 have "finite (dom h1)" by (rule finite_subset [rotated])
  from sp_release_all_finite [OF this] obtain h2 where
    2: "sp_release_all h1 (dep_queue rli @ [prev_event rli, current_begin_event rli]) = Some h2"
    and d2: "dom h2 \<subseteq> dom h1" by blast
  from \<open>finite (dom h1)\<close> d2 have "finite (dom h2)" by (rule finite_subset [rotated])
  from sp_release_all_finite [OF this] obtain h3 where
    3: "sp_release_all h2 (map snd (dep_key_lookup rli)) = Some h3" by blast
  show ?thesis
    using assms(1-3) 1 2 3
    by (simp add: clear_dep_def mysql_mutex_lock_def DBUG_ASSERT_def)
qed

lemma clear_dep_SomeD:
  assumes "clear_dep dbug thd need_dep_lock (rli, h) = Some (Inr (rli', h'))"
  shows "num_in_flight_trx rli' = num_in_flight_trx rli - of_nat (length (dep_queue rli))"
    and "dep_queue rli' = []"
    and "dep_key_lookup rli' = []"
    and "dep_full rli' = False"
    and "dep_empty_cond rli' = {}"
    and "dep_full_cond rli' = {}"
    and "dep_trx_all_done_cond rli' = {}"
    and "dbug \<longrightarrow> length (dep_queue rli) \<le> unat (num_in_flight_trx rli)"
  using assms
  by (auto simp: clear_dep_def mysql_cond_broadcast_def DBUG_ASSERT_def
      split: sum.splits option.splits if_splits)

lemma unat_minus_of_nat:
  fixes x :: "'a::len word"
  assumes "n \<le> unat x"
  shows "unat (x - of_nat n) + n = unat x"
proof -
  have n: "unat (of_nat n :: 'a word) = n"
    using assms by (rule le_unat_uoi)
  then have "(of_nat n :: 'a word) \<le> x"
    using assms by (simp add: word_less_eq_iff_unsigned [where 'a = nat])
  then have "unat (x - of_nat n) = unat x - unat (of_nat n :: 'a word)"
    by (rule unat_sub)
  with n assms show ?thesis by simp
qed

text \<open>
  C7: after \<open>clear_dep\<close> has completed the pending queue and the map from keys to last
  writers are empty, \<open>dep_full\<close> is false, and no thread waits on the not-empty, the
  not-full or the all-done condition any more: each has been broadcast.
\<close>

theorem clear_dep_releases_waiters:
  assumes "clear_dep dbug thd need_dep_lock (rli, h) = Some (Inr (rli', h'))"
  shows "dep_queue rli' = [] \<and> dep_key_lookup rli' = [] \<and> \<not> dep_full rli' \<and>
    dep_empty_cond rli' = {} \<and> dep_full_cond rli' = {} \<and> dep_trx_all_done_cond rli' = {}"
  using clear_dep_SomeD [OF assms] by simp

theorem clear_dep_releases_waiters_witness:
  "\<exists>rli' h'.
     clear_dep True 10 True
       (rli0\<lparr>dep_queue := [Some 1], dep_key_lookup := [(''t1'', Some 2)],
          dep_full_cond := {10}, dep_full := True, dep_empty_cond := {11, 12},
          dep_trx_all_done_cond := {10}, num_in_flight_trx := 3\<rparr>,
        [1 \<mapsto> \<lparr>use_count = 1, wrapper = \<lparr>next_ev = Some 2\<rparr>\<rparr>,
         2 \<mapsto> \<lparr>use_count = 2, wrapper = \<lparr>next_ev = None\<rparr>\<rparr>]) = Some (Inr (rli', h')) \<and>
     dep_queue rli' = [] \<and> dep_key_lookup rli' = [] \<and> \<not> dep_full rli' \<and>
     dep_empty_cond rli' = {} \<and> dep_full_cond rli' = {} \<and> dep_trx_all_done_cond rli' = {}"
proof -
  let ?rli = "rli0\<lparr>dep_queue := [Some 1], dep_key_lookup := [(''t1'', Some 2)],
          dep_full_cond := {10}, dep_full := True, dep_empty_cond := {11, 12},
          dep_trx_all_done_cond := {10}, num_in_flight_trx := 3\<rparr>"
  let ?h = "[1 \<mapsto> \<lparr>use_count = 1, wrapper = \<lparr>next_ev = Some 2\<rparr>\<rparr>,
         2 \<mapsto> \<lparr>use_count = 2, wrapper = \<lparr>next_ev = None\<rparr>\<rparr>] :: unit event_store"
  have c: "list_all2 (chain ?h) (dep_queue ?rli) [[1, 2]]" by simp
  have d: "distinct (concat [[1, 2 :: nat]])" by simp
  have f: "finite (dom ?h)" by simp
  have "\<exists>rli' h'. clear_dep True 10 True (?rli, ?h) = Some (Inr (rli', h'))"
    by (rule clear_dep_completes [OF _ _ _ c d f]) (simp_all add: rli0_def)
  then obtain rli' h' where r: "clear_dep True 10 True (?rli, ?h) = Some (Inr (rli', h'))"
    by blast
  from clear_dep_releases_waiters [OF r] r show ?thesis by blast
qed

text \<open>
  C9: when \<open>num_in_flight_trx\<close> is at least the length of the pending queue,
  \<open>clear_dep\<close> takes exactly that length off it, and it is at least the length of the
  pending queue afterwards: the groups that had left the queue are still counted.
\<close>

theorem clear_dep_in_flight:
  assumes "length (dep_queue rli) \<le> unat (num_in_flight_trx rli)"
    and "clear_dep dbug thd need_dep_lock (rli, h) = Some (Inr (rli', h'))"
  shows "unat (num_in_flight_trx rli') + length (dep_queue rli) = unat (num_in_flight_trx rli) \<and>
    length (dep_queue rli') \<le> unat (num_in_flight_trx rli')"
  using clear_dep_SomeD(1,2) [OF assms(2)] unat_minus_of_nat [OF assms(1)] by simp

theorem clear_dep_in_flight_witness:
  "\<exists>rli' h'.
     clear_dep True 10 False
       (rli0\<lparr>dep_queue := [Some 1, None], dep_lock := Some 10, num_in_flight_trx := 5\<rparr>,
        [1 \<mapsto> \<lparr>use_count = 1, wrapper = \<lparr>next_ev = Some 2\<rparr>\<rparr>,
         2 \<mapsto> \<lparr>use_count = 1, wrapper = \<lparr>next_ev = None\<rparr>\<rparr>]) = Some (Inr (rli', h')) \<and>
     unat (num_in_flight_trx rli') = 3 \<and> length (dep_queue rli') \<le> unat (num_in_flight_trx rli')"
proof -
  let ?rli = "rli0\<lparr>dep_queue := [Some 1, None], dep_lock := Some 10, num_in_flight_trx := 5\<rparr>"
  let ?h = "[1 \<mapsto> \<lparr>use_count = 1, wrapper = \<lparr>next_ev = Some 2\<rparr>\<rparr>,
         2 \<mapsto> \<lparr>use_count = 1, wrapper = \<lparr>next_ev = None\<rparr>\<rparr>] :: unit event_store"
  have c: "list_all2 (chain ?h) (dep_queue ?rli) [[1, 2], []]" by simp
  have d: "distinct (concat [[1, 2 :: nat], []])" by simp
  have f: "finite (dom ?h)" by simp
  have inv: "length (dep_queue ?rli) \<le> unat (num_in_flight_trx ?rli)" by simp
  have "\<exists>rli' h'. clear_dep True 10 False (?rli, ?h) = Some (Inr (rli', h'))"
    by (rule clear_dep_completes [OF _ _ _ c d f]) (simp_all add: rli0_def)
  then obtain rli' h' where r: "clear_dep True 10 False (?rli, ?h) = Some (Inr (rli', h'))"
    by blast
  from clear_dep_in_flight [OF inv r] have
    "unat (num_in_flight_trx rli') = 3 \<and> length (dep_queue rli') \<le> unat (num_in_flight_trx rli')"
    by simp
  with r show ?thesis by blast
qed

section \<open>The coordinator's group status: proofs\<close>











section \<open>The committed-group queue: proofs\<close>

lemma gaq_inv_init: "gaq_inv {} gaq_init"
  by (simp add: gaq_inv_def gaq_init_def)

lemma gaq_inv_mono: "gaq_inv R g \<Longrightarrow> R \<subseteq> R' \<Longrightarrow> gaq_inv R' g"
  by (auto simp: gaq_inv_def)

lemma gaq_inv_assign: "gaq_inv R g \<Longrightarrow> gaq_inv R (gaq_assign seqno pos g)"
  by (auto simp: gaq_inv_def gaq_assign_def)

lemma map_group_index_mark:
  "map (group_index \<circ> (\<lambda>d. if group_index d = i then d\<lparr>completed := True\<rparr> else d)) q =
   map group_index q"
  by (induction q) auto

lemma gaq_inv_report_done: "gaq_inv R g \<Longrightarrow> gaq_inv (insert i R) (gaq_report_done i g)"
  by (auto simp: gaq_inv_def gaq_report_done_def map_group_index_mark)

lemma upt_split:
  assumes "map f (pre @ rest) = [a ..< b]" and "a \<le> b"
  shows "map f pre = [a ..< a + length pre]" and "map f rest = [a + length pre ..< b]"
    and "a + length pre \<le> b"
proof -
  have len: "length pre + length rest = b - a"
    using arg_cong [OF assms(1), of length] by simp
  then show le: "a + length pre \<le> b" using assms(2) by arith
  have "map f pre = take (length pre) (map f (pre @ rest))" by simp
  also have "\<dots> = take (length pre) [a ..< b]" by (simp only: assms(1))
  also have "\<dots> = [a ..< a + length pre]" using le by (simp add: take_upt)
  finally show "map f pre = [a ..< a + length pre]" .
  have "map f rest = drop (length pre) (map f (pre @ rest))" by simp
  also have "\<dots> = drop (length pre) [a ..< b]" by (simp only: assms(1))
  also have "\<dots> = [a + length pre ..< b]" by (simp add: drop_upt)
  finally show "map f rest = [a + length pre ..< b]" .
qed

lemma gaq_checkpoint_prefix:
  assumes "gaq_inv R g"
  shows "queue g = takeWhile completed (queue g) @ queue (gaq_checkpoint g)"
    and "lwm (gaq_checkpoint g) = lwm g + length (takeWhile completed (queue g))"
    and "next_index (gaq_checkpoint g) = next_index g"
proof -
  let ?pre = "takeWhile completed (queue g)" and ?rest = "dropWhile completed (queue g)"
  show "queue g = ?pre @ queue (gaq_checkpoint g)"
    by (simp add: gaq_checkpoint_def Let_def)
  show "next_index (gaq_checkpoint g) = next_index g"
    by (simp add: gaq_checkpoint_def Let_def)
  from assms have m: "map group_index (?pre @ ?rest) = [lwm g ..< next_index g]"
    and le: "lwm g \<le> next_index g"
    by (simp_all add: gaq_inv_def)
  show "lwm (gaq_checkpoint g) = lwm g + length ?pre"
  proof (cases "?pre = []")
    case True
    then show ?thesis by (simp add: gaq_checkpoint_def Let_def)
  next
    case False
    then have "group_index (last ?pre) = last (map group_index ?pre)"
      by (simp add: last_map)
    also have "\<dots> = last [lwm g ..< lwm g + length ?pre]"
      by (simp only: upt_split(1) [OF m le])
    also have "\<dots> = lwm g + length ?pre - 1"
      using False by simp
    finally show ?thesis using False by (simp add: gaq_checkpoint_def Let_def)
  qed
qed

lemma gaq_inv_checkpoint:
  assumes "gaq_inv R g"
  shows "gaq_inv R (gaq_checkpoint g)"
proof -
  let ?pre = "takeWhile completed (queue g)" and ?rest = "dropWhile completed (queue g)"
  let ?g' = "gaq_checkpoint g"
  from assms have m: "map group_index (?pre @ ?rest) = [lwm g ..< next_index g]"
    and le: "lwm g \<le> next_index g"
    and old: "\<forall>i < lwm g. i \<in> R"
    and comp: "\<forall>d \<in> set (queue g). completed d \<longrightarrow> group_index d \<in> R"
    by (simp_all add: gaq_inv_def)
  note cp = gaq_checkpoint_prefix [OF assms]
  have q': "queue ?g' = ?rest" by (simp add: gaq_checkpoint_def Let_def)
  have 1: "map group_index (queue ?g') = [lwm ?g' ..< next_index ?g']"
    using upt_split(2) [OF m le] by (simp add: q' cp(2,3))
  have 2: "lwm ?g' \<le> next_index ?g'"
    using upt_split(3) [OF m le] by (simp add: cp(2,3))
  have 3: "\<forall>i < lwm ?g'. i \<in> R"
  proof (intro allI impI)
    fix i assume i: "i < lwm ?g'"
    show "i \<in> R"
    proof (cases "i < lwm g")
      case True
      with old show ?thesis by blast
    next
      case False
      with i have "i \<in> set [lwm g ..< lwm g + length ?pre]" by (simp add: cp(2))
      then have "i \<in> set (map group_index ?pre)"
        by (simp only: upt_split(1) [OF m le])
      then obtain d where d: "d \<in> set ?pre" "group_index d = i" by auto
      from d(1) have "completed d" by (rule set_takeWhileD [THEN conjunct2])
      moreover from d(1) have "d \<in> set (queue g)" by (rule set_takeWhileD [THEN conjunct1])
      ultimately show ?thesis using comp d(2) by blast
    qed
  qed
  have 4: "\<forall>d \<in> set (queue ?g'). completed d \<longrightarrow> group_index d \<in> R"
    using comp by (auto simp: q' dest: set_dropWhileD)
  from 1 2 3 4 show ?thesis by (simp add: gaq_inv_def)
qed

lemma gaq_inv_step:
  assumes "gaq_inv R g" and "gaq_step e g = Some g'"
  shows "gaq_inv (R \<union> {i. e = Report_done i}) g'"
proof (cases e)
  case (Assign seqno pos)
  with assms show ?thesis by (auto intro: gaq_inv_assign)
next
  case (Report_done i)
  with assms have "g' = gaq_report_done i g" by (simp split: if_splits)
  with gaq_inv_report_done [OF assms(1), of i] Report_done show ?thesis by simp
next
  case Checkpoint
  with assms show ?thesis by (auto intro: gaq_inv_checkpoint)
qed

lemma gaq_inv_run:
  "gaq_inv R g \<Longrightarrow> gaq_run es g = Some g' \<Longrightarrow> gaq_inv (R \<union> {i. Report_done i \<in> set es}) g'"
proof (induction es arbitrary: R g)
  case Nil
  then show ?case by simp
next
  case (Cons e es)
  from Cons.prems(2) obtain g1 where s: "gaq_step e g = Some g1" and r: "gaq_run es g1 = Some g'"
    by (auto split: option.splits)
  from Cons.IH [OF gaq_inv_step [OF Cons.prems(1) s] r]
  show ?case by (rule gaq_inv_mono) auto
qed

text \<open>
  C1: after any interleaving of assignments, completion reports and checkpoint passes
  the queue is ordered by group index, the low-water mark is at most the index of every
  assigned group that has not been reported complete (and of every descriptor in the
  queue that is not marked complete), and a checkpoint pass evicts a prefix of the queue
  made of completed descriptors only, moving the mark by the length of this prefix.
\<close>

theorem gaq_lwm_prefix_only:
  assumes "gaq_run es gaq_init = Some g"
  shows "sorted_wrt (<) (map group_index (queue g)) \<and>
    (\<forall>i < next_index g. Report_done i \<notin> set es \<longrightarrow> lwm g \<le> i) \<and>
    (\<forall>d \<in> set (queue g). \<not> completed d \<longrightarrow> lwm g \<le> group_index d) \<and>
    (\<exists>pre. queue g = pre @ queue (gaq_checkpoint g) \<and> (\<forall>d \<in> set pre. completed d) \<and>
       lwm (gaq_checkpoint g) = lwm g + length pre)"
proof -
  from gaq_inv_run [OF gaq_inv_init assms]
  have inv: "gaq_inv {i. Report_done i \<in> set es} g" by simp
  then have m: "map group_index (queue g) = [lwm g ..< next_index g]"
    and old: "\<forall>i < lwm g. Report_done i \<in> set es"
    by (simp_all add: gaq_inv_def)
  have 1: "sorted_wrt (<) (map group_index (queue g))"
    by (simp only: m sorted_wrt_upt)
  have 2: "\<forall>i < next_index g. Report_done i \<notin> set es \<longrightarrow> lwm g \<le> i"
    using old by (meson not_le_imp_less)
  have 3: "\<forall>d \<in> set (queue g). \<not> completed d \<longrightarrow> lwm g \<le> group_index d"
  proof (intro ballI impI)
    fix d assume "d \<in> set (queue g)"
    then have "group_index d \<in> set (map group_index (queue g))" by simp
    then show "lwm g \<le> group_index d" by (simp only: m) simp
  qed
  have "\<forall>d \<in> set (takeWhile completed (queue g)). completed d"
    by (auto dest: set_takeWhileD)
  with gaq_checkpoint_prefix(1,2) [OF inv]
  have 4: "\<exists>pre. queue g = pre @ queue (gaq_checkpoint g) \<and> (\<forall>d \<in> set pre. completed d) \<and>
       lwm (gaq_checkpoint g) = lwm g + length pre"
    by blast
  from 1 2 3 4 show ?thesis by blast
qed

theorem gaq_lwm_prefix_only_witness:
  "gaq_run [Assign 0 100, Assign 1 200, Assign 2 300, Report_done 1, Checkpoint] gaq_init =
     Some \<lparr>queue = [\<lparr>group_index = 0, checkpoint_seqno = 0, source_pos = 100, completed = False\<rparr>,
                    \<lparr>group_index = 1, checkpoint_seqno = 1, source_pos = 200, completed = True\<rparr>,
                    \<lparr>group_index = 2, checkpoint_seqno = 2, source_pos = 300, completed = False\<rparr>],
           next_index = 3, lwm = 0, gap_bitmap = [1]\<rparr> \<and>
   Report_done 0 \<notin> set [Assign 0 100, Assign 1 200, Assign 2 300, Report_done 1, Checkpoint] \<and>
   lwm \<lparr>queue = [\<lparr>group_index = 0, checkpoint_seqno = 0, source_pos = 100, completed = False\<rparr>,
                    \<lparr>group_index = 1, checkpoint_seqno = 1, source_pos = 200, completed = True\<rparr>,
                    \<lparr>group_index = 2, checkpoint_seqno = 2, source_pos = 300, completed = False\<rparr>],
           next_index = 3, lwm = 0, gap_bitmap = [1]\<rparr> \<le> 0"
proof -
  let ?es = "[Assign 0 100, Assign 1 200, Assign 2 300, Report_done 1, Checkpoint]"
  let ?g = "\<lparr>queue = [\<lparr>group_index = 0, checkpoint_seqno = 0, source_pos = 100, completed = False\<rparr>,
                    \<lparr>group_index = 1, checkpoint_seqno = 1, source_pos = 200, completed = True\<rparr>,
                    \<lparr>group_index = 2, checkpoint_seqno = 2, source_pos = 300, completed = False\<rparr>],
           next_index = 3, lwm = 0, gap_bitmap = [1]\<rparr>"
  have r: "gaq_run ?es gaq_init = Some ?g"
    by (simp add: gaq_init_def gaq_assign_def gaq_report_done_def gaq_checkpoint_def)
  have n: "Report_done 0 \<notin> set ?es" by simp
  have "0 < next_index ?g" by simp
  with gaq_lwm_prefix_only [OF r] n have "lwm ?g \<le> 0" by blast
  with r n show ?thesis by blast
qed

section \<open>The commit-order manager: proofs\<close>

lemma com_wake_next_inv:
  "com_inv R m \<Longrightarrow>
   com_inv R (com_wake_next m) \<and>
   (\<forall>G \<in> set (waiting (com_wake_next m)). next_to_commit (com_wake_next m) < G) \<and>
   (\<exists>rest. granted (com_wake_next m) = granted m @ rest)"
proof (induction m rule: com_wake_next.induct)
  case (1 m)
  show ?case
  proof (cases "next_to_commit m \<in> set (waiting m)")
    case False
    then have e: "com_wake_next m = m" by (subst com_wake_next.simps) simp
    from False "1.prems" have "\<forall>G \<in> set (waiting m). next_to_commit m < G"
      by (auto simp: com_inv_def le_less)
    with "1.prems" show ?thesis by (simp add: e)
  next
    case True
    let ?m' = "com_grant (next_to_commit m) (m\<lparr>waiting := removeAll (next_to_commit m) (waiting m)\<rparr>)"
    have e: "com_wake_next m = com_wake_next ?m'"
      using True by (subst com_wake_next.simps) simp
    have inv': "com_inv R ?m'"
      using "1.prems" True by (auto simp: com_inv_def com_grant_def le_less Suc_le_eq)
    have g: "granted ?m' = granted m @ [next_to_commit m]"
      by (simp add: com_grant_def)
    from "1.IH" [OF True inv'] show ?thesis
      unfolding e g by auto
  qed
qed

lemma com_request_inv:
  assumes "com_inv R m" and strict: "\<forall>G \<in> set (waiting m). next_to_commit m < G"
    and "com_request G m = Some m'"
  shows "com_inv (insert G R) m'" and "\<forall>G \<in> set (waiting m'). next_to_commit m' < G"
proof -
  from assms(3) have ok: "\<not> G < next_to_commit m" "G \<notin> set (waiting m)"
    by (auto simp: com_request_def split: if_splits)
  have "com_inv (insert G R) m' \<and> (\<forall>G \<in> set (waiting m'). next_to_commit m' < G)"
  proof (cases "G = next_to_commit m")
    case True
    with assms(3) ok have m': "m' = com_wake_next (com_grant G m)"
      by (simp add: com_request_def)
    have "com_inv (insert G R) (com_grant G m)"
      using assms(1) strict True by (auto simp: com_inv_def com_grant_def Suc_le_eq)
    from com_wake_next_inv [OF this] show ?thesis by (simp add: m')
  next
    case False
    with assms(3) ok have m': "m' = m\<lparr>waiting := G # waiting m\<rparr>"
      by (simp add: com_request_def)
    from False ok(1) have "next_to_commit m < G" by simp
    with assms(1) strict show ?thesis by (auto simp: com_inv_def m')
  qed
  then show "com_inv (insert G R) m'" and "\<forall>G \<in> set (waiting m'). next_to_commit m' < G"
    by blast+
qed

lemma com_run_inv:
  "com_inv R m \<Longrightarrow> \<forall>G \<in> set (waiting m). next_to_commit m < G \<Longrightarrow> com_run Gs m = Some m' \<Longrightarrow>
   com_inv (R \<union> set Gs) m' \<and> (\<forall>G \<in> set (waiting m'). next_to_commit m' < G)"
proof (induction Gs arbitrary: R m)
  case Nil
  then show ?case by simp
next
  case (Cons G Gs)
  from Cons.prems(3) obtain m1 where s: "com_request G m = Some m1" and r: "com_run Gs m1 = Some m'"
    by (auto split: option.splits)
  from Cons.IH [OF com_request_inv [OF Cons.prems(1,2) s] r] show ?case by simp
qed

lemma com_inv_init: "com_inv {} com_init"
  by (simp add: com_inv_def com_init_def)

text \<open>
  C2: after any sequence of requests the log of grants is \<open>0, 1, \<dots>\<close> up to the oldest
  uncommitted group, in index order; every group requested is either granted or
  waiting, and every waiting group has a smaller group not yet granted; a request for
  \<open>G\<close> is granted at once exactly when \<open>G\<close> is the oldest uncommitted group, and
  otherwise leaves the log as it is and the worker waiting.
\<close>

theorem commit_order_grants_in_index_order:
  assumes "com_run Gs com_init = Some m"
  shows "granted m = [0 ..< next_to_commit m] \<and> sorted_wrt (<) (granted m) \<and>
    set (granted m) \<union> set (waiting m) = set Gs \<and>
    (\<forall>G \<in> set (waiting m). next_to_commit m < G) \<and>
    (\<forall>G m'. com_request G m = Some m' \<longrightarrow>
       (if G = next_to_commit m
        then (\<exists>rest. granted m' = granted m @ G # rest) \<and> G \<notin> set (waiting m')
        else granted m' = granted m \<and> G \<in> set (waiting m')))"
proof -
  have "\<forall>G \<in> set (waiting com_init). next_to_commit com_init < G"
    by (simp add: com_init_def)
  from com_run_inv [OF com_inv_init this assms]
  have inv: "com_inv (set Gs) m" and strict: "\<forall>G \<in> set (waiting m). next_to_commit m < G"
    by simp_all
  from inv have g: "granted m = [0 ..< next_to_commit m]"
    and u: "set (granted m) \<union> set (waiting m) = set Gs"
    unfolding com_inv_def by blast+
  have s: "sorted_wrt (<) (granted m)" by (simp only: g sorted_wrt_upt)
  have step: "\<forall>G m'. com_request G m = Some m' \<longrightarrow>
       (if G = next_to_commit m
        then (\<exists>rest. granted m' = granted m @ G # rest) \<and> G \<notin> set (waiting m')
        else granted m' = granted m \<and> G \<in> set (waiting m'))"
  proof (intro allI impI)
    fix G m' assume r: "com_request G m = Some m'"
    note inv' = com_request_inv [OF inv strict r]
    show "if G = next_to_commit m
        then (\<exists>rest. granted m' = granted m @ G # rest) \<and> G \<notin> set (waiting m')
        else granted m' = granted m \<and> G \<in> set (waiting m')"
    proof (cases "G = next_to_commit m")
      case True
      with r have m': "m' = com_wake_next (com_grant G m)"
        by (simp add: com_request_def split: if_splits)
      have "com_inv (insert G (set Gs)) (com_grant G m)"
        using inv strict True by (auto simp: com_inv_def com_grant_def Suc_le_eq)
      from com_wake_next_inv [OF this] obtain rest where
        "granted m' = granted (com_grant G m) @ rest" unfolding m' by blast
      then have a: "granted m' = granted m @ G # rest" by (simp add: com_grant_def)
      from inv'(1) have "granted m' = [0 ..< next_to_commit m']" by (simp add: com_inv_def)
      with a have "G < next_to_commit m'"
        by (metis atLeastLessThan_iff in_set_conv_decomp set_upt)
      with inv'(2) have "G \<notin> set (waiting m')" by (meson less_asym)
      with a True show ?thesis by auto
    next
      case False
      with r have "m' = m\<lparr>waiting := G # waiting m\<rparr>"
        by (simp add: com_request_def split: if_splits)
      with False show ?thesis by simp
    qed
  qed
  from g s u strict step show ?thesis by blast
qed

theorem commit_order_grants_in_index_order_witness:
  "com_run [2, 1] com_init = Some \<lparr>next_to_commit = 0, waiting = [1, 2], granted = []\<rparr> \<and>
   com_request 0 \<lparr>next_to_commit = 0, waiting = [1, 2], granted = []\<rparr> =
     Some \<lparr>next_to_commit = 3, waiting = [], granted = [0, 1, 2]\<rparr> \<and>
   0 < (1::nat) \<and> 0 < (2::nat) \<and>
   (\<exists>rest. [0, 1, 2] = [] @ (0::nat) # rest)"
proof -
  let ?m = "\<lparr>next_to_commit = 0, waiting = [1, 2], granted = []\<rparr>"
  let ?m' = "\<lparr>next_to_commit = 3, waiting = [], granted = [0, 1, 2]\<rparr>"
  have r: "com_run [2, 1] com_init = Some ?m"
    by (simp add: com_init_def com_request_def)
  have q: "com_request 0 ?m = Some ?m'"
    by (simp add: com_request_def com_grant_def com_wake_next.simps)
  from commit_order_grants_in_index_order [OF r] q
  have "(\<exists>rest. granted ?m' = granted ?m @ 0 # rest)" and "\<forall>G \<in> set (waiting ?m). next_to_commit ?m < G"
    by auto
  with r q show ?thesis by simp
qed

end
